theory Spec2Isabelle
  imports Complex_Main "HOL-Library.Word"
begin

section \<open>Two-state Viterbi decoders: the Poisson and the dishonest-casino variants\<close>

text \<open>
  The repository holds three C programs with the same decoder: \<^verbatim>\<open>viterbi.c\<close> and
  \<^verbatim>\<open>poisson_sampling/viterbi.c\<close> (Poisson emissions, decoder inside \<^verbatim>\<open>main\<close>) and
  \<^verbatim>\<open>durbin_example/viterbi_durbin.c\<close> (a six-row emission table, decoder in
  \<^verbatim>\<open>run_viterbi\<close>). The forward loop and the traceback are the same text in all three;
  they differ in the emission term, in the helpers \<^verbatim>\<open>max\<close> and \<^verbatim>\<open>argmax\<close>, in the
  constants and in how the tables are allocated (\<^verbatim>\<open>calloc\<close> against \<^verbatim>\<open>malloc\<close>).

  Conventions of the embedding.
  \<^item> A C \<^verbatim>\<open>double\<close> is a \<^typ>\<open>real\<close>. A double operation whose IEEE result is an
    infinity or a NaN (division by zero, logarithm of a non-positive number) is the
    fault \<open>NonFinite\<close>: the reals do not follow the program past that point.
  \<^item> A C \<^verbatim>\<open>int\<close> that holds an observation or a state index is an \<^typ>\<open>int\<close>; the
    factorial accumulator of \<^verbatim>\<open>poisson\<close>, which does overflow, is a \<^typ>\<open>32 word\<close>
    read with \<^const>\<open>sint\<close>.
  \<^item> The tables \<^verbatim>\<open>vprob\<close>, \<^verbatim>\<open>ptr\<close>, \<^verbatim>\<open>pi\<close> are two rows of \<open>n\<close> cells, indexed
    \<open>row\<close> then \<open>column\<close>, and \<^verbatim>\<open>path\<close> is one row of \<open>n\<close> cells. What a cell holds
    before the program stores into it is part of the initial memory: zero after
    \<^verbatim>\<open>calloc\<close>, arbitrary after \<^verbatim>\<open>malloc\<close>. The array of row pointers itself (which the
    programs allocate with \<open>n\<close> slots and use two of) is not tracked.
  \<^item> A read or a store outside a table is a fault, not a value.
\<close>

subsection \<open>Faults and memory\<close>

datatype fault = TableOutOfBounds | EmissionOutOfBounds | NonFinite

text \<open>
  The tables of one decode. The source calls the third table \<^verbatim>\<open>pi\<close>; that name is the
  circle constant here, hence \<open>pi_tab\<close>. \<open>vwrites\<close> is not program state: it records,
  in program order, the cell of every store into \<^verbatim>\<open>vprob\<close>.
\<close>

record tables =
  vprob :: "nat \<Rightarrow> nat \<Rightarrow> real"
  ptr :: "nat \<Rightarrow> nat \<Rightarrow> int"
  pi_tab :: "nat \<Rightarrow> nat \<Rightarrow> real"
  path :: "nat \<Rightarrow> int"
  vwrites :: "(nat \<times> nat) list"

definition store :: "(nat \<Rightarrow> nat \<Rightarrow> 'a) \<Rightarrow> nat \<Rightarrow> nat \<Rightarrow> 'a \<Rightarrow> nat \<Rightarrow> nat \<Rightarrow> 'a" where
  "store tab j i v = tab(j := (tab j)(i := v))"

text \<open>Memory as \<^verbatim>\<open>calloc\<close> returns it: every cell zero.\<close>

definition calloc_tables :: tables where
  "calloc_tables =
     \<lparr>vprob = (\<lambda>j i. 0), ptr = (\<lambda>j i. 0), pi_tab = (\<lambda>j i. 0), path = (\<lambda>i. 0), vwrites = []\<rparr>"

subsection \<open>The helpers \<^verbatim>\<open>max\<close> and \<^verbatim>\<open>argmax\<close>\<close>

text \<open>\<^verbatim>\<open>viterbi_durbin.c\<close>, lines 28 to 51.\<close>

definition max_durbin :: "real \<Rightarrow> real \<Rightarrow> real" where
  "max_durbin a b = (if a > b then a else b)"

definition argmax_durbin :: "real \<Rightarrow> real \<Rightarrow> int" where
  "argmax_durbin row0 row1 = (if row0 > row1 then 0 else 1)"

text \<open>
  \<^verbatim>\<open>viterbi.c\<close>, lines 152 to 177 (the same text in \<^verbatim>\<open>poisson_sampling/viterbi.c\<close>).
  The last \<^verbatim>\<open>return\<close> of \<^verbatim>\<open>argmax\<close> returns the double \<^verbatim>\<open>row1\<close> from a function of
  result type \<^verbatim>\<open>int\<close>: C converts by discarding the fractional part.
\<close>

definition c_trunc :: "real \<Rightarrow> int" where
  "c_trunc x = (if 0 \<le> x then \<lfloor>x\<rfloor> else \<lceil>x\<rceil>)"

definition max_poisson :: "real \<Rightarrow> real \<Rightarrow> real" where
  "max_poisson a b = (if a > b then a else if a < b then b else b)"

definition argmax_poisson :: "real \<Rightarrow> real \<Rightarrow> int" where
  "argmax_poisson row0 row1 =
     (if row0 > row1 then 0 else if row0 < row1 then 1 else c_trunc row1)"

subsection \<open>The emission helper \<^verbatim>\<open>poisson\<close>\<close>

text \<open>
  \<^verbatim>\<open>viterbi.c\<close>, lines 179 to 195. \<^verbatim>\<open>factk\<close> is a C \<^verbatim>\<open>int\<close>; the loop
  \<^verbatim>\<open>for (int i = k - 1; i > 0; i--) factk *= i;\<close> multiplies in 32 bits. The callers
  pass an \<^verbatim>\<open>int\<close> observation for \<open>k\<close>, so \<open>k\<close> is an integer here. The result is
  \<open>None\<close> where the double result is not finite: \<^verbatim>\<open>factk\<close> zero, or \<^verbatim>\<open>pow\<close> of zero to
  a negative power.
\<close>

fun fact_loop :: "32 word \<Rightarrow> nat \<Rightarrow> 32 word" where
  "fact_loop factk 0 = factk"
| "fact_loop factk (Suc i) = fact_loop (factk * of_nat (Suc i)) i"

definition factk_of :: "int \<Rightarrow> 32 word" where
  "factk_of k = (if k = 0 then 1 else fact_loop (word_of_int k) (nat (k - 1)))"

definition poisson :: "int \<Rightarrow> real \<Rightarrow> real option" where
  "poisson k lambda =
     (if sint (factk_of k) = 0 \<or> (lambda = 0 \<and> k < 0) then None
      else Some ((lambda powi k * exp (- lambda)) / real_of_int (sint (factk_of k))))"

text \<open>\<^verbatim>\<open>log\<close> of the C library on a finite double: finite only on positive arguments.\<close>

definition c_log :: "real \<Rightarrow> real option" where
  "c_log x = (if 0 < x then Some (ln x) else None)"

subsection \<open>The shared decoder\<close>

text \<open>
  What differs between the three programs: the transition matrix \<^verbatim>\<open>a\<close>, the emission
  term added in column \<open>i\<close> for state \<open>j\<close>, and the two helpers.
\<close>

record variant =
  trans :: "nat \<Rightarrow> nat \<Rightarrow> real"
  emission :: "nat \<Rightarrow> nat \<Rightarrow> fault + real"
  maxf :: "real \<Rightarrow> real \<Rightarrow> real"
  argmaxf :: "real \<Rightarrow> real \<Rightarrow> int"

text \<open>\<^verbatim>\<open>vprob[0][0] = 1; vprob[1][0] = 0;\<close>\<close>

definition init_vprob :: "tables \<Rightarrow> tables" where
  "init_vprob t =
     t\<lparr>vprob := store (store (vprob t) 0 0 1) 1 0 0, vwrites := vwrites t @ [(0, 0), (1, 0)]\<rparr>"

text \<open>
  The body of the inner loop, for one column \<open>i\<close> and one state \<open>j\<close>:
  \<^verbatim>\<open>row0 = vprob[0][i-1] + a[0][j]; row1 = vprob[1][i-1] + a[1][j];\<close>
  \<^verbatim>\<open>vprob[j][i] = <emission> + max(row0, row1); ptr[j][i] = argmax(row0, row1);\<close>
  \<^verbatim>\<open>pi[j][i] = max(row0, row1);\<close>
\<close>

definition row0_of :: "variant \<Rightarrow> tables \<Rightarrow> nat \<Rightarrow> nat \<Rightarrow> real" where
  "row0_of P t i j = vprob t 0 (i - 1) + trans P 0 j"

definition row1_of :: "variant \<Rightarrow> tables \<Rightarrow> nat \<Rightarrow> nat \<Rightarrow> real" where
  "row1_of P t i j = vprob t 1 (i - 1) + trans P 1 j"

definition fill_cell :: "variant \<Rightarrow> nat \<Rightarrow> nat \<Rightarrow> tables \<Rightarrow> fault + tables" where
  "fill_cell P i j t =
     (let row0 = row0_of P t i j; row1 = row1_of P t i j
      in case emission P i j of
           Inl f \<Rightarrow> Inl f
         | Inr em \<Rightarrow>
             Inr (t\<lparr>vprob := store (vprob t) j i (em + maxf P row0 row1),
                    ptr := store (ptr t) j i (argmaxf P row0 row1),
                    pi_tab := store (pi_tab t) j i (maxf P row0 row1),
                    vwrites := vwrites t @ [(j, i)]\<rparr>))"

text \<open>\<^verbatim>\<open>for (int j = 0; j < 2; j++)\<close>: two runs of the body.\<close>

definition column :: "variant \<Rightarrow> nat \<Rightarrow> tables \<Rightarrow> fault + tables" where
  "column P i t = (case fill_cell P i 0 t of Inl f \<Rightarrow> Inl f | Inr t0 \<Rightarrow> fill_cell P i 1 t0)"

text \<open>\<^verbatim>\<open>for (int i = 1; i < n; i++)\<close>, entered with the current value of \<open>i\<close>.\<close>

function forward :: "variant \<Rightarrow> nat \<Rightarrow> nat \<Rightarrow> tables \<Rightarrow> fault + tables" where
  "forward P n i t =
     (if i < n
      then (case column P i t of Inl f \<Rightarrow> Inl f | Inr t' \<Rightarrow> forward P n (i + 1) t')
      else Inr t)"
  by pat_completeness auto
termination
  by (relation "measure (\<lambda>(P, n, i, t). n - i)") auto

declare forward.simps [simp del]

text \<open>\<^verbatim>\<open>path[n - 1] = argmax(pi[0][n - 1], pi[1][n - 1]);\<close>\<close>

definition traceback_start :: "variant \<Rightarrow> nat \<Rightarrow> tables \<Rightarrow> tables" where
  "traceback_start P n t =
     t\<lparr>path := (path t)(n - 1 := argmaxf P (pi_tab t 0 (n - 1)) (pi_tab t 1 (n - 1)))\<rparr>"

text \<open>
  \<^verbatim>\<open>for (int i = n - 2; i > 0; i--) path[i] = ptr[path[i + 1]][i + 1];\<close>
  The first argument is the current value of \<open>i\<close>. Only rows 0 and 1 of \<^verbatim>\<open>ptr\<close> exist.
\<close>

fun traceback :: "nat \<Rightarrow> tables \<Rightarrow> fault + tables" where
  "traceback 0 t = Inr t"
| "traceback (Suc k) t =
     (let s = path t (Suc k + 1)
      in if s = 0 \<or> s = 1
         then traceback k (t\<lparr>path := (path t)(Suc k := ptr t (nat s) (Suc k + 1))\<rparr>)
         else Inl TableOutOfBounds)"

text \<open>
  The forward pass and the whole decode of a sequence of \<open>n\<close> observations, from the
  memory \<open>m\<close> the allocator returned. With \<open>n = 0\<close> the first store, \<^verbatim>\<open>vprob[0][0] = 1\<close>,
  is already outside its row.
\<close>

definition forward_pass :: "variant \<Rightarrow> nat \<Rightarrow> tables \<Rightarrow> fault + tables" where
  "forward_pass P n m =
     (if n = 0 then Inl TableOutOfBounds else forward P n 1 (init_vprob (m\<lparr>vwrites := []\<rparr>)))"

definition decode :: "variant \<Rightarrow> nat \<Rightarrow> tables \<Rightarrow> fault + tables" where
  "decode P n m =
     (case forward_pass P n m of
        Inl f \<Rightarrow> Inl f
      | Inr t \<Rightarrow> traceback (n - 2) (traceback_start P n t))"

text \<open>The decoded path, \<^verbatim>\<open>path[0]\<close> to \<^verbatim>\<open>path[n - 1]\<close>, as the print loops read it.\<close>

definition path_list :: "nat \<Rightarrow> tables \<Rightarrow> int list" where
  "path_list n t = map (path t) [0..<n]"

subsection \<open>The discrete variant: \<^verbatim>\<open>viterbi_durbin.c\<close>\<close>

text \<open>\<^verbatim>\<open>read_sequencefile\<close>, lines 66 to 77: \<^verbatim>\<open>sequence[n] = num - 1;\<close> for every number read.\<close>

definition read_sequencefile :: "int list \<Rightarrow> int list" where
  "read_sequencefile nums = map (\<lambda>num. num - 1) nums"

definition a_durbin :: "real list list" where
  "a_durbin = [[ln 0.95, ln 0.05],
               [ln 0.1, ln 0.9]]"

definition e_durbin :: "real list list" where
  "e_durbin = [[ln (1 / 6), ln 0.1],
               [ln (1 / 6), ln 0.1],
               [ln (1 / 6), ln 0.1],
               [ln (1 / 6), ln 0.1],
               [ln (1 / 6), ln 0.1],
               [ln (1 / 6), ln 0.5]]"

text \<open>\<^verbatim>\<open>e[seq[i]][j]\<close>: the table has rows 0 to 5.\<close>

definition emission_durbin :: "int list \<Rightarrow> nat \<Rightarrow> nat \<Rightarrow> fault + real" where
  "emission_durbin seq i j =
     (let s = seq ! i
      in if 0 \<le> s \<and> s < 6 then Inr (e_durbin ! nat s ! j) else Inl EmissionOutOfBounds)"

definition durbin :: "int list \<Rightarrow> variant" where
  "durbin seq =
     \<lparr>trans = (\<lambda>k j. a_durbin ! k ! j), emission = emission_durbin seq,
      maxf = max_durbin, argmaxf = argmax_durbin\<rparr>"

text \<open>
  \<^verbatim>\<open>run_viterbi(seq, seq_length)\<close>. The tables come from \<^verbatim>\<open>malloc\<close>: \<open>m\<close> is whatever
  the heap held.
\<close>

definition forward_durbin :: "tables \<Rightarrow> int list \<Rightarrow> fault + tables" where
  "forward_durbin m seq = forward_pass (durbin seq) (length seq) m"

definition run_viterbi :: "tables \<Rightarrow> int list \<Rightarrow> fault + tables" where
  "run_viterbi m seq = decode (durbin seq) (length seq) m"

text \<open>
  The print loop of \<^verbatim>\<open>run_viterbi\<close>, lines 206 to 221: a line break before every 60th
  position, \<^verbatim>\<open>F\<close> for 0, \<^verbatim>\<open>L\<close> for 1, nothing for any other value.
\<close>

definition viterbi_output :: "nat \<Rightarrow> tables \<Rightarrow> string" where
  "viterbi_output n t =
     concat (map (\<lambda>i. (if i mod 60 = 0 \<and> i \<noteq> 0 then [CHR 0x0A] else [])
                       @ (if path t i = 0 then ''F'' else [])
                       @ (if path t i = 1 then ''L'' else []))
                 [0..<n])"

subsection \<open>The Poisson variant: \<^verbatim>\<open>viterbi.c\<close> and \<^verbatim>\<open>poisson_sampling/viterbi.c\<close>\<close>

text \<open>
  \<^verbatim>\<open>log(poisson(seq[i - 1], e[j]))\<close>. The header of \<^verbatim>\<open>viterbi.c\<close> leaves the matrix
  \<^verbatim>\<open>a\<close> and the rates \<^verbatim>\<open>e\<close> to the user, so the decoder takes them as arguments;
  \<open>a_main\<close> and \<open>e_main\<close> are the values in the file.
\<close>

definition emission_poisson :: "real list \<Rightarrow> int list \<Rightarrow> nat \<Rightarrow> nat \<Rightarrow> fault + real" where
  "emission_poisson e seq i j =
     (case poisson (seq ! (i - 1)) (e ! j) of
        None \<Rightarrow> Inl NonFinite
      | Some p \<Rightarrow> (case c_log p of None \<Rightarrow> Inl NonFinite | Some l \<Rightarrow> Inr l))"

definition poisson_variant :: "real list list \<Rightarrow> real list \<Rightarrow> int list \<Rightarrow> variant" where
  "poisson_variant a e seq =
     \<lparr>trans = (\<lambda>k j. a ! k ! j), emission = emission_poisson e seq,
      maxf = max_poisson, argmaxf = argmax_poisson\<rparr>"

definition a_main :: "real list list" where
  "a_main = [[ln 0.9551, ln 0.0449],
             [ln 0.0880, ln 0.9120]]"

definition e_main :: "real list" where
  "e_main = [1.8234, 5.7812]"

text \<open>The decoder inside \<^verbatim>\<open>main\<close>; the tables come from \<^verbatim>\<open>calloc\<close>.\<close>

definition forward_main :: "real list list \<Rightarrow> real list \<Rightarrow> int list \<Rightarrow> fault + tables" where
  "forward_main a e seq = forward_pass (poisson_variant a e seq) (length seq) calloc_tables"

definition viterbi_main :: "real list list \<Rightarrow> real list \<Rightarrow> int list \<Rightarrow> fault + tables" where
  "viterbi_main a e seq = decode (poisson_variant a e seq) (length seq) calloc_tables"

subsection \<open>The recurrence as a predicate on one cell\<close>

text \<open>
  Cell \<open>(j, i)\<close> of the three tables holds what the loop body computes from column
  \<open>i - 1\<close> of \<^verbatim>\<open>vprob\<close> as it stands in the same tables.
\<close>

definition cell_ok :: "variant \<Rightarrow> tables \<Rightarrow> nat \<Rightarrow> nat \<Rightarrow> bool" where
  "cell_ok P t i j \<longleftrightarrow>
     (\<exists>em. emission P i j = Inr em \<and>
           vprob t j i = em + maxf P (row0_of P t i j) (row1_of P t i j)) \<and>
     ptr t j i = argmaxf P (row0_of P t i j) (row1_of P t i j) \<and>
     pi_tab t j i = maxf P (row0_of P t i j) (row1_of P t i j)"

subsection \<open>Inputs used in the examples\<close>

text \<open>
  A transition matrix whose rows are probability distributions, with
  \<open>P(0 \<rightarrow> 1) = exp (- 3)\<close> and \<open>P(1 \<rightarrow> 1) = exp (- 2)\<close>, written as a user of \<^verbatim>\<open>viterbi.c\<close>
  would write it into the file.
\<close>

definition a_tie :: "real list list" where
  "a_tie = [[ln (1 - exp (- 3)), - 3],
            [ln (1 - exp (- 2)), - 2]]"

text \<open>
  Memory as \<^verbatim>\<open>malloc\<close> may return it: the cells of \<^verbatim>\<open>path\<close> still hold the value 1
  from an earlier use of the block, every other cell zero.
\<close>

definition stale_tables :: tables where
  "stale_tables = calloc_tables\<lparr>path := (\<lambda>i. 1)\<rparr>"

section \<open>The forward pass and the traceback\<close>

subsection \<open>One column\<close>

lemma store_same: "store tab j i v j i = v"
  by (simp add: store_def)

lemma store_other_col: "c \<noteq> i \<Longrightarrow> store tab j i v r c = tab r c"
  by (simp add: store_def)

lemma store_other_row: "r \<noteq> j \<Longrightarrow> store tab j i v r c = tab r c"
  by (simp add: store_def)

lemma fill_cell_Inr:
  assumes "fill_cell P i j t = Inr t'"
  obtains em where "emission P i j = Inr em"
    and "vprob t' = store (vprob t) j i (em + maxf P (row0_of P t i j) (row1_of P t i j))"
    and "ptr t' = store (ptr t) j i (argmaxf P (row0_of P t i j) (row1_of P t i j))"
    and "pi_tab t' = store (pi_tab t) j i (maxf P (row0_of P t i j) (row1_of P t i j))"
    and "path t' = path t"
    and "vwrites t' = vwrites t @ [(j, i)]"
  using assms by (auto simp: fill_cell_def Let_def split: sum.splits)

lemma fill_cell_total:
  "emission P i j = Inr em \<Longrightarrow> \<exists>t'. fill_cell P i j t = Inr t'"
  by (simp add: fill_cell_def Let_def)

lemma fill_cell_fault:
  "fill_cell P i j t = Inl f \<longleftrightarrow> emission P i j = Inl f"
  by (auto simp: fill_cell_def Let_def split: sum.splits)

lemma column_frame:
  assumes "column P i t = Inr t'"
  shows "path t' = path t"
    and "vwrites t' = vwrites t @ [(0, i), (1, i)]"
    and "\<And>r c. c \<noteq> i \<Longrightarrow> vprob t' r c = vprob t r c"
    and "\<And>r c. c \<noteq> i \<Longrightarrow> ptr t' r c = ptr t r c"
    and "\<And>r c. c \<noteq> i \<Longrightarrow> pi_tab t' r c = pi_tab t r c"
proof -
  from assms obtain t0 where t0: "fill_cell P i 0 t = Inr t0" and t1: "fill_cell P i 1 t0 = Inr t'"
    by (auto simp: column_def split: sum.splits)
  from t0 t1 show "path t' = path t"
    by (auto elim!: fill_cell_Inr)
  from t0 t1 show "vwrites t' = vwrites t @ [(0, i), (1, i)]"
    by (auto elim!: fill_cell_Inr)
  fix r c :: nat assume "c \<noteq> i"
  with t0 t1 show "vprob t' r c = vprob t r c"
    by (auto elim!: fill_cell_Inr simp: store_other_col)
  from \<open>c \<noteq> i\<close> t0 t1 show "ptr t' r c = ptr t r c"
    by (auto elim!: fill_cell_Inr simp: store_other_col)
  from \<open>c \<noteq> i\<close> t0 t1 show "pi_tab t' r c = pi_tab t r c"
    by (auto elim!: fill_cell_Inr simp: store_other_col)
qed

lemma rows_cong:
  assumes "\<And>r. vprob t' r (i - 1) = vprob t r (i - 1)"
  shows "row0_of P t' i j = row0_of P t i j" and "row1_of P t' i j = row1_of P t i j"
  using assms by (simp_all add: row0_of_def row1_of_def)

lemma column_new_cells:
  assumes col: "column P i t = Inr t'" and i: "1 \<le> i" and j: "j < 2"
  shows "cell_ok P t' i j"
proof -
  from col obtain t0 where t0: "fill_cell P i 0 t = Inr t0" and t1: "fill_cell P i 1 t0 = Inr t'"
    by (auto simp: column_def split: sum.splits)
  from t0 obtain em0 where E0: "emission P i 0 = Inr em0"
    and V0: "vprob t0 = store (vprob t) 0 i (em0 + maxf P (row0_of P t i 0) (row1_of P t i 0))"
    and P0: "ptr t0 = store (ptr t) 0 i (argmaxf P (row0_of P t i 0) (row1_of P t i 0))"
    and Q0: "pi_tab t0 = store (pi_tab t) 0 i (maxf P (row0_of P t i 0) (row1_of P t i 0))"
    by (rule fill_cell_Inr)
  from t1 obtain em1 where E1: "emission P i 1 = Inr em1"
    and V1: "vprob t' = store (vprob t0) 1 i (em1 + maxf P (row0_of P t0 i 1) (row1_of P t0 i 1))"
    and P1: "ptr t' = store (ptr t0) 1 i (argmaxf P (row0_of P t0 i 1) (row1_of P t0 i 1))"
    and Q1: "pi_tab t' = store (pi_tab t0) 1 i (maxf P (row0_of P t0 i 1) (row1_of P t0 i 1))"
    by (rule fill_cell_Inr)
  from i have ne: "i - 1 \<noteq> i" by simp
  have rows0: "row0_of P t0 i k = row0_of P t i k" "row1_of P t0 i k = row1_of P t i k" for k
    using ne by (simp_all add: row0_of_def row1_of_def V0 store_other_col)
  have rows1: "row0_of P t' i k = row0_of P t i k" "row1_of P t' i k = row1_of P t i k" for k
    using ne by (simp_all add: row0_of_def row1_of_def V0 V1 store_other_col)
  from j consider "j = 0" | "j = 1" by linarith
  then show ?thesis
  proof cases
    case 1
    show ?thesis
      unfolding cell_ok_def 1 rows1
      using E0 by (simp add: V1 V0 P1 P0 Q1 Q0 store_def)
  next
    case 2
    show ?thesis
      unfolding cell_ok_def 2 rows1
      using E1 by (simp add: V1 P1 Q1 rows0 store_def)
  qed
qed

lemma cell_ok_cong:
  assumes "cell_ok P t c j"
    and "\<And>r. vprob t' r c = vprob t r c" and "\<And>r. vprob t' r (c - 1) = vprob t r (c - 1)"
    and "\<And>r. ptr t' r c = ptr t r c" and "\<And>r. pi_tab t' r c = pi_tab t r c"
  shows "cell_ok P t' c j"
  using assms by (simp add: cell_ok_def row0_of_def row1_of_def)

lemma column_cells:
  assumes col: "column P i t = Inr t'" and i: "1 \<le> i"
    and old: "\<And>c j. 1 \<le> c \<Longrightarrow> c < i \<Longrightarrow> j < 2 \<Longrightarrow> cell_ok P t c j"
    and c: "1 \<le> c" "c < i + 1" and j: "j < 2"
  shows "cell_ok P t' c j"
proof (cases "c = i")
  case True
  with column_new_cells[OF col i j] show ?thesis by simp
next
  case False
  with c have lt: "c < i" by simp
  then have ne: "c \<noteq> i" "c - 1 \<noteq> i" by simp_all
  show ?thesis
    by (rule cell_ok_cong[OF old[OF c(1) lt j]])
       (use ne in \<open>simp_all add: column_frame[OF col]\<close>)
qed

lemma forward_cells:
  assumes "forward P n i t = Inr t'" and "1 \<le> i"
    and "\<And>c j. 1 \<le> c \<Longrightarrow> c < i \<Longrightarrow> j < 2 \<Longrightarrow> cell_ok P t c j"
    and "1 \<le> c" and "c < n" and "j < 2"
  shows "cell_ok P t' c j"
  using assms
proof (induction P n i t rule: forward.induct)
  case (1 P n i t)
  show ?case
  proof (cases "i < n")
    case False
    with "1.prems"(1) have "t' = t" by (simp add: forward.simps)
    with False "1.prems" show ?thesis by simp
  next
    case True
    with "1.prems"(1) obtain t1 where col: "column P i t = Inr t1"
      and rest: "forward P n (i + 1) t1 = Inr t'"
      by (auto simp: forward.simps[of P n i t] split: sum.splits)
    show ?thesis
    proof (rule "1.IH"[OF True col rest])
      show "1 \<le> i + 1" by simp
      fix c j :: nat assume "1 \<le> c" "c < i + 1" "j < 2"
      then show "cell_ok P t1 c j"
        using column_cells[OF col "1.prems"(2) "1.prems"(3)] by blast
    qed (use "1.prems" in auto)
  qed
qed

lemma forward_step:
  assumes "forward P n i t = Inr t'" and "i < n"
  obtains t1 where "column P i t = Inr t1" and "forward P n (i + 1) t1 = Inr t'"
  using assms by (auto simp: forward.simps[of P n i t] split: sum.splits)

lemma forward_done: "\<not> i < n \<Longrightarrow> forward P n i t = Inr t"
  by (simp add: forward.simps)

lemma forward_frame:
  "forward P n i t = Inr t' \<Longrightarrow>
     path t' = path t \<and> (\<forall>r c. c < i \<longrightarrow> vprob t' r c = vprob t r c) \<and>
     vwrites t' = vwrites t @ concat (map (\<lambda>c. [(0, c), (1, c)]) [i..<n])"
proof (induction P n i t rule: forward.induct)
  case (1 P n i t)
  show ?case
  proof (cases "i < n")
    case False
    with "1.prems" show ?thesis by (simp add: forward_done)
  next
    case True
    from "1.prems" True obtain t1 where col: "column P i t = Inr t1"
      and rest: "forward P n (i + 1) t1 = Inr t'"
      by (rule forward_step)
    note IH = "1.IH"[OF True col rest]
    have "path t' = path t"
      using IH column_frame(1)[OF col] by simp
    moreover have "vprob t' r c = vprob t r c" if "c < i" for r c
      using IH column_frame(3)[OF col, of c r] that by simp
    moreover have "vwrites t' = vwrites t @ concat (map (\<lambda>c. [(0, c), (1, c)]) [i..<n])"
      using IH column_frame(2)[OF col] True by (simp add: upt_conv_Cons)
    ultimately show ?thesis by blast
  qed
qed

lemma column_total:
  assumes "emission P i 0 = Inr em0" and "emission P i 1 = Inr em1"
  shows "\<exists>t'. column P i t = Inr t'"
  using assms by (simp add: column_def fill_cell_def Let_def)

lemma column_fault:
  assumes "column P i t = Inl f"
  shows "emission P i 0 = Inl f \<or> emission P i 1 = Inl f"
  using assms by (auto simp: column_def fill_cell_def Let_def split: sum.splits)

lemma forward_total:
  "(\<And>c j. i \<le> c \<Longrightarrow> c < n \<Longrightarrow> j < 2 \<Longrightarrow> \<exists>em. emission P c j = Inr em) \<Longrightarrow>
   \<exists>t'. forward P n i t = Inr t'"
proof (induction P n i t rule: forward.induct)
  case (1 P n i t)
  show ?case
  proof (cases "i < n")
    case False
    then show ?thesis by (simp add: forward_done)
  next
    case True
    from "1.prems"[of i 0] "1.prems"[of i 1] True
    obtain em0 em1 where "emission P i 0 = Inr em0" "emission P i 1 = Inr em1"
      by auto
    then obtain t1 where col: "column P i t = Inr t1"
      using column_total by blast
    have "\<exists>t'. forward P n (i + 1) t1 = Inr t'"
      by (rule "1.IH"[OF True col]) (use "1.prems" in auto)
    with col True show ?thesis
      by (simp add: forward.simps[of P n i t])
  qed
qed

lemma forward_fault:
  "forward P n i t = Inl f \<Longrightarrow> \<exists>c j. i \<le> c \<and> c < n \<and> j < 2 \<and> emission P c j = Inl f"
proof (induction P n i t rule: forward.induct)
  case (1 P n i t)
  show ?case
  proof (cases "i < n")
    case False
    with "1.prems" show ?thesis by (simp add: forward_done)
  next
    case True
    show ?thesis
    proof (cases "column P i t")
      case (Inl g)
      with "1.prems" True have "g = f" by (simp add: forward.simps[of P n i t])
      with Inl column_fault[of P i t f] have "emission P i 0 = Inl f \<or> emission P i 1 = Inl f"
        by simp
      with True show ?thesis
        by (metis le_refl zero_less_numeral one_less_numeral_iff semiring_norm(76))
    next
      case (Inr t1)
      with "1.prems" True have "forward P n (i + 1) t1 = Inl f"
        by (simp add: forward.simps[of P n i t])
      from "1.IH"[OF True Inr this] obtain c j where
        "i + 1 \<le> c" "c < n" "j < 2" "emission P c j = Inl f" by blast
      then show ?thesis
        by (metis add_leD1)
    qed
  qed
qed

lemma traceback_frame:
  "traceback k t = Inr t' \<Longrightarrow>
     vprob t' = vprob t \<and> ptr t' = ptr t \<and> pi_tab t' = pi_tab t \<and> vwrites t' = vwrites t \<and>
     (\<forall>c. c = 0 \<or> k < c \<longrightarrow> path t' c = path t c)"
proof (induction k arbitrary: t)
  case 0
  then show ?case by simp
next
  case (Suc k)
  let ?s = "path t (Suc k + 1)"
  let ?t1 = "t\<lparr>path := (path t)(Suc k := ptr t (nat ?s) (Suc k + 1))\<rparr>"
  from Suc.prems have tb: "traceback k ?t1 = Inr t'"
    by (simp add: Let_def split: if_splits)
  from Suc.IH[OF tb] show ?case by auto
qed

lemma traceback_total:
  assumes "path t (k + 1) = 0 \<or> path t (k + 1) = 1"
    and "\<And>r c. r < 2 \<Longrightarrow> 1 \<le> c \<Longrightarrow> c \<le> k + 1 \<Longrightarrow> ptr t r c = 0 \<or> ptr t r c = 1"
  shows "\<exists>t'. traceback k t = Inr t'"
  using assms
proof (induction k arbitrary: t)
  case 0
  then show ?case by simp
next
  case (Suc k)
  let ?s = "path t (Suc k + 1)"
  let ?t1 = "t\<lparr>path := (path t)(Suc k := ptr t (nat ?s) (Suc k + 1))\<rparr>"
  from Suc.prems(1) have s: "?s = 0 \<or> ?s = 1" by simp
  then have "nat ?s < 2" by auto
  then have "ptr t (nat ?s) (Suc k + 1) = 0 \<or> ptr t (nat ?s) (Suc k + 1) = 1"
    using Suc.prems(2)[of "nat ?s" "Suc k + 1"] by simp
  then have "\<exists>t'. traceback k ?t1 = Inr t'"
    by (intro Suc.IH) (use Suc.prems(2) in auto)
  with s show ?case by (simp add: Let_def)
qed

subsection \<open>The two variants\<close>

lemma max_durbin_eq: "max_durbin a b = max a b"
  by (simp add: max_durbin_def max_def)

lemma max_poisson_eq: "max_poisson a b = max a b"
  by (simp add: max_poisson_def max_def)

lemma argmax_durbin_range: "argmax_durbin x y = 0 \<or> argmax_durbin x y = 1"
  by (simp add: argmax_durbin_def)

lemma durbin_sel [simp]:
  "trans (durbin seq) = (\<lambda>k j. a_durbin ! k ! j)"
  "emission (durbin seq) = emission_durbin seq"
  "maxf (durbin seq) = max_durbin"
  "argmaxf (durbin seq) = argmax_durbin"
  by (simp_all add: durbin_def)

lemma poisson_variant_sel [simp]:
  "trans (poisson_variant a e seq) = (\<lambda>k j. a ! k ! j)"
  "emission (poisson_variant a e seq) = emission_poisson e seq"
  "maxf (poisson_variant a e seq) = max_poisson"
  "argmaxf (poisson_variant a e seq) = argmax_poisson"
  by (simp_all add: poisson_variant_def)

lemma emission_durbin_Inr:
  "emission_durbin seq i j = Inr em \<longleftrightarrow> 0 \<le> seq ! i \<and> seq ! i < 6 \<and> em = e_durbin ! nat (seq ! i) ! j"
  by (auto simp: emission_durbin_def Let_def)

lemma emission_durbin_Inl:
  "emission_durbin seq i j = Inl f \<longleftrightarrow> \<not> (0 \<le> seq ! i \<and> seq ! i < 6) \<and> f = EmissionOutOfBounds"
  by (auto simp: emission_durbin_def Let_def)

lemma emission_poisson_Inr:
  "emission_poisson e seq i j = Inr l \<longleftrightarrow>
     (\<exists>p. poisson (seq ! (i - 1)) (e ! j) = Some p \<and> 0 < p \<and> l = ln p)"
  by (auto simp: emission_poisson_def c_log_def split: option.splits)

lemma forward_pass_cells:
  assumes "forward_pass P n m = Inr t" and "1 \<le> c" and "c < n" and "j < 2"
  shows "cell_ok P t c j"
proof -
  from assms(1) have fw: "forward P n 1 (init_vprob (m\<lparr>vwrites := []\<rparr>)) = Inr t"
    by (simp add: forward_pass_def split: if_splits)
  show ?thesis
    by (rule forward_cells[OF fw _ _ assms(2,3,4)]) simp_all
qed

lemma forward_pass_total:
  assumes "1 \<le> n" and "\<And>c j. 1 \<le> c \<Longrightarrow> c < n \<Longrightarrow> j < 2 \<Longrightarrow> \<exists>em. emission P c j = Inr em"
  shows "\<exists>t. forward_pass P n m = Inr t"
  using assms forward_total[of 1 n P] by (simp add: forward_pass_def)

lemma forward_pass_frame:
  assumes "forward_pass P n m = Inr t"
  shows "path t = path m" and "vprob t 0 0 = 1" and "vprob t 1 0 = 0"
    and "vwrites t = [(0, 0), (1, 0)] @ concat (map (\<lambda>c. [(0, c), (1, c)]) [1..<n])"
proof -
  from assms have fw: "forward P n 1 (init_vprob (m\<lparr>vwrites := []\<rparr>)) = Inr t"
    by (simp add: forward_pass_def split: if_splits)
  note fr = forward_frame[OF fw]
  from fr show "path t = path m" by (simp add: init_vprob_def)
  from fr show "vprob t 0 0 = 1" by (simp add: init_vprob_def store_def)
  from fr show "vprob t 1 0 = 0" by (simp add: init_vprob_def store_def)
  from fr show "vwrites t = [(0, 0), (1, 0)] @ concat (map (\<lambda>c. [(0, c), (1, c)]) [1..<n])"
    by (simp add: init_vprob_def)
qed

lemma decode_Inr:
  assumes "decode P n m = Inr t'"
  obtains t where "forward_pass P n m = Inr t"
    and "traceback (n - 2) (traceback_start P n t) = Inr t'"
  using assms by (auto simp: decode_def split: sum.splits)

lemma decode_tables:
  assumes "decode P n m = Inr t'" and "forward_pass P n m = Inr t"
  shows "vprob t' = vprob t" and "ptr t' = ptr t" and "pi_tab t' = pi_tab t"
    and "vwrites t' = vwrites t"
  using assms traceback_frame[of "n - 2" "traceback_start P n t" t']
  by (auto simp: decode_def traceback_start_def)

lemma decode_last:
  assumes "decode P n m = Inr t'" and "forward_pass P n m = Inr t"
  shows "path t' (n - 1) = argmaxf P (pi_tab t 0 (n - 1)) (pi_tab t 1 (n - 1))"
proof -
  from assms have tb: "traceback (n - 2) (traceback_start P n t) = Inr t'"
    by (simp add: decode_def)
  from assms(2) have "n \<noteq> 0" by (auto simp: forward_pass_def split: if_splits)
  then have "n - 1 = 0 \<or> n - 2 < n - 1" by arith
  with traceback_frame[OF tb] have "path t' (n - 1) = path (traceback_start P n t) (n - 1)"
    by blast
  then show ?thesis by (simp add: traceback_start_def)
qed

lemma decode_total:
  assumes fw: "forward_pass P n m = Inr t"
    and am: "\<And>x y. argmaxf P x y = 0 \<or> argmaxf P x y = 1"
  shows "\<exists>t'. decode P n m = Inr t'"
proof (cases "n \<le> 2")
  case True
  then have "n - 2 = 0" by simp
  with fw show ?thesis by (simp add: decode_def)
next
  case False
  let ?t0 = "traceback_start P n t"
  from False have k: "n - 2 + 1 = n - 1" by simp
  have "path ?t0 (n - 2 + 1) = 0 \<or> path ?t0 (n - 2 + 1) = 1"
    unfolding k using am by (simp add: traceback_start_def)
  moreover have "ptr ?t0 r c = 0 \<or> ptr ?t0 r c = 1" if "r < 2" "1 \<le> c" "c \<le> n - 2 + 1" for r c
  proof -
    from that False have "c < n" by simp
    from forward_pass_cells[OF fw that(2) this that(1)] am show ?thesis
      by (auto simp: cell_ok_def traceback_start_def)
  qed
  ultimately have "\<exists>t'. traceback (n - 2) ?t0 = Inr t'"
    by (rule traceback_total)
  with fw show ?thesis by (simp add: decode_def)
qed

lemma forward_durbin_total:
  assumes "1 \<le> length seq" and "\<And>i. 1 \<le> i \<Longrightarrow> i < length seq \<Longrightarrow> 0 \<le> seq ! i \<and> seq ! i < 6"
  shows "\<exists>t. forward_durbin m seq = Inr t"
  unfolding forward_durbin_def
  by (rule forward_pass_total[OF assms(1)]) (use assms(2) in \<open>simp add: emission_durbin_def\<close>)

lemma run_viterbi_total:
  assumes "1 \<le> length seq" and "\<And>i. 1 \<le> i \<Longrightarrow> i < length seq \<Longrightarrow> 0 \<le> seq ! i \<and> seq ! i < 6"
  shows "\<exists>t. run_viterbi m seq = Inr t"
proof -
  from forward_durbin_total[OF assms] obtain t where "forward_pass (durbin seq) (length seq) m = Inr t"
    by (auto simp: forward_durbin_def)
  then show ?thesis
    unfolding run_viterbi_def by (rule decode_total) (simp add: argmax_durbin_range)
qed

subsection \<open>Prefixes of the forward pass, faults, the write log\<close>

lemma forward_prefix:
  "forward P n i t = Inr t' \<Longrightarrow> i \<le> k \<Longrightarrow> k \<le> n \<Longrightarrow>
     \<exists>tk. forward P k i t = Inr tk \<and> forward P n k tk = Inr t'"
proof (induction P n i t rule: forward.induct)
  case (1 P n i t)
  show ?case
  proof (cases "i < k")
    case False
    with "1.prems" have "k = i" by simp
    with "1.prems"(1) show ?thesis by (simp add: forward_done)
  next
    case True
    with "1.prems" have lt: "i < n" by simp
    from "1.prems"(1) lt obtain t1 where col: "column P i t = Inr t1"
      and rest: "forward P n (i + 1) t1 = Inr t'"
      by (rule forward_step)
    from True have "i + 1 \<le> k" by simp
    from "1.IH"[OF lt col rest this "1.prems"(3)] obtain tk where
      "forward P k (i + 1) t1 = Inr tk" "forward P n k tk = Inr t'" by blast
    with col True show ?thesis
      by (simp add: forward.simps[of P k i t])
  qed
qed

lemma forward_pass_prefix:
  assumes "forward_pass P n m = Inr t" and "1 \<le> k" and "k \<le> n"
  shows "\<exists>tk. forward_pass P k m = Inr tk \<and> forward P n k tk = Inr t"
proof -
  from assms(1) have "forward P n 1 (init_vprob (m\<lparr>vwrites := []\<rparr>)) = Inr t"
    by (simp add: forward_pass_def split: if_splits)
  from forward_prefix[OF this assms(2,3)] assms(2) show ?thesis
    by (simp add: forward_pass_def)
qed

lemma forward_pass_emissions:
  assumes "forward_pass P n m = Inr t" and "1 \<le> c" and "c < n" and "j < 2"
  shows "\<exists>em. emission P c j = Inr em"
  using forward_pass_cells[OF assms] by (auto simp: cell_ok_def)

lemma forward_pass_fault:
  assumes "forward_pass P n m = Inl f"
  shows "(n = 0 \<and> f = TableOutOfBounds) \<or> (\<exists>c j. 1 \<le> c \<and> c < n \<and> j < 2 \<and> emission P c j = Inl f)"
proof (cases "n = 0")
  case True
  with assms show ?thesis by (simp add: forward_pass_def)
next
  case False
  with assms have "forward P n 1 (init_vprob (m\<lparr>vwrites := []\<rparr>)) = Inl f"
    by (simp add: forward_pass_def)
  from forward_fault[OF this] show ?thesis by blast
qed

lemma decode_fault:
  assumes "decode P n m = Inl f" and "f \<noteq> TableOutOfBounds"
  shows "forward_pass P n m = Inl f"
proof (cases "forward_pass P n m")
  case (Inl g)
  with assms show ?thesis by (simp add: decode_def)
next
  case (Inr t)
  have "traceback k u \<noteq> Inl f" for k u
    using assms(2) by (induction k arbitrary: u) (auto simp: Let_def)
  with assms(1) Inr show ?thesis by (simp add: decode_def)
qed

lemma distinct_cols:
  "distinct (concat (map (\<lambda>c. [(0::nat, c), (1, c)]) [i..<n]))"
proof (induction n)
  case 0
  then show ?case by simp
next
  case (Suc n)
  show ?case
  proof (cases "i \<le> n")
    case True
    with Suc show ?thesis by (auto simp: upt_Suc_append)
  next
    case False
    then show ?thesis by simp
  qed
qed

lemma distinct_vwrites:
  "distinct ([(0::nat, 0::nat), (1, 0)] @ concat (map (\<lambda>c. [(0, c), (1, c)]) [1..<n]))"
  using distinct_cols[of 1 n] by auto

lemma last_path_list: "n \<noteq> 0 \<Longrightarrow> last (path_list n t) = path t (n - 1)"
  by (simp add: path_list_def last_map)

lemma start_column:
  assumes "forward_pass P k m = Inr t"
  shows "vprob t 0 0 = 1 \<and> vprob t 1 0 = 0 \<and> distinct (vwrites t)"
  using forward_pass_frame(2,3,4)[OF assms] distinct_vwrites[of k] by simp

lemma start_column_decode:
  assumes "decode P n m = Inr t"
  shows "vprob t 0 0 = 1 \<and> vprob t 1 0 = 0 \<and> distinct (vwrites t)"
proof -
  from assms obtain t0 where fw: "forward_pass P n m = Inr t0"
    by (rule decode_Inr)
  from decode_tables(1,4)[OF assms fw] start_column[OF fw] show ?thesis by simp
qed

lemma decode_last_pi:
  assumes run: "decode P n m = Inr t" and n: "2 \<le> n"
  shows "last (path_list n t) = argmaxf P (pi_tab t 0 (n - 1)) (pi_tab t 1 (n - 1))"
    and "\<And>j. j < 2 \<Longrightarrow> pi_tab t j (n - 1) =
           maxf P (vprob t 0 (n - 2) + trans P 0 j) (vprob t 1 (n - 2) + trans P 1 j)"
proof -
  from run obtain t0 where fw: "forward_pass P n m = Inr t0"
    by (rule decode_Inr)
  note same = decode_tables[OF run fw]
  from n have n0: "n \<noteq> 0" by simp
  from decode_last[OF run fw] last_path_list[OF n0, of t]
  show "last (path_list n t) = argmaxf P (pi_tab t 0 (n - 1)) (pi_tab t 1 (n - 1))"
    by (simp add: same)
  fix j :: nat assume j: "j < 2"
  from n have c: "1 \<le> n - 1" "n - 1 < n" by simp_all
  have "n - 1 - 1 = n - 2" by simp
  with forward_pass_cells[OF fw c j]
  show "pi_tab t j (n - 1) =
           maxf P (vprob t 0 (n - 2) + trans P 0 j) (vprob t 1 (n - 2) + trans P 1 j)"
    by (simp add: cell_ok_def row0_of_def row1_of_def same)
qed

subsection \<open>What a decode takes from the initial memory\<close>

text \<open>
  The filled columns do not depend on what the tables held before; of the path, only
  element 0 does, which for \<open>n \<ge> 2\<close> is never stored into.
\<close>

lemma forward_pass_determined:
  assumes f1: "forward_pass P n m1 = Inr t1" and f2: "forward_pass P n m2 = Inr t2"
  shows "c < n \<Longrightarrow> j < 2 \<Longrightarrow> vprob t1 j c = vprob t2 j c"
proof (induction c arbitrary: j)
  case 0
  from \<open>j < 2\<close> have "j = 0 \<or> j = 1" by arith
  with forward_pass_frame(2,3)[OF f1] forward_pass_frame(2,3)[OF f2] show ?case by auto
next
  case (Suc c)
  have c: "1 \<le> Suc c" by simp
  have r0: "vprob t1 0 c = vprob t2 0 c" and r1: "vprob t1 1 c = vprob t2 1 c"
    using Suc.IH[of 0] Suc.IH[of 1] Suc.prems by simp_all
  from forward_pass_cells[OF f1 c Suc.prems] forward_pass_cells[OF f2 c Suc.prems] r0 r1
  show ?case
    by (auto simp: cell_ok_def row0_of_def row1_of_def)
qed

lemma forward_pass_ptr_determined:
  assumes f1: "forward_pass P n m1 = Inr t1" and f2: "forward_pass P n m2 = Inr t2"
    and c: "1 \<le> c" "c < n" and j: "j < 2"
  shows "ptr t1 j c = ptr t2 j c" and "pi_tab t1 j c = pi_tab t2 j c"
proof -
  from c have "c - 1 < n" by simp
  then have r: "vprob t1 0 (c - 1) = vprob t2 0 (c - 1)" "vprob t1 1 (c - 1) = vprob t2 1 (c - 1)"
    using forward_pass_determined[OF f1 f2] by simp_all
  from forward_pass_cells[OF f1 c j] forward_pass_cells[OF f2 c j] r
  show "ptr t1 j c = ptr t2 j c" and "pi_tab t1 j c = pi_tab t2 j c"
    by (simp_all add: cell_ok_def row0_of_def row1_of_def)
qed

lemma traceback_path:
  "traceback k t = Inr t' \<Longrightarrow> 1 \<le> i \<Longrightarrow> i \<le> k \<Longrightarrow>
     (path t' (i + 1) = 0 \<or> path t' (i + 1) = 1) \<and>
     path t' i = ptr t (nat (path t' (i + 1))) (i + 1)"
proof (induction k arbitrary: t)
  case 0
  then show ?case by simp
next
  case (Suc k)
  let ?s = "path t (Suc k + 1)"
  let ?t1 = "t\<lparr>path := (path t)(Suc k := ptr t (nat ?s) (Suc k + 1))\<rparr>"
  from Suc.prems(1) have s: "?s = 0 \<or> ?s = 1" and tb: "traceback k ?t1 = Inr t'"
    by (simp_all add: Let_def split: if_splits)
  note fr = traceback_frame[OF tb]
  show ?case
  proof (cases "i = Suc k")
    case True
    from fr have "path t' (Suc k) = path ?t1 (Suc k)" "path t' (Suc k + 1) = path ?t1 (Suc k + 1)"
      by simp_all
    with s True show ?thesis by simp
  next
    case False
    with Suc.prems have "i \<le> k" by simp
    from Suc.IH[OF tb Suc.prems(2) this] show ?thesis by simp
  qed
qed

lemma decode_path_head:
  assumes "decode P n m = Inr t" and "2 \<le> n"
  shows "path t 0 = path m 0"
proof -
  from assms(1) obtain t0 where fw: "forward_pass P n m = Inr t0"
    and tb: "traceback (n - 2) (traceback_start P n t0) = Inr t"
    by (rule decode_Inr)
  from traceback_frame[OF tb] have "path t 0 = path (traceback_start P n t0) 0" by simp
  also from assms(2) have "\<dots> = path t0 0" by (simp add: traceback_start_def)
  also from forward_pass_frame(1)[OF fw] have "\<dots> = path m 0" by simp
  finally show ?thesis .
qed

lemma decode_path_determined:
  assumes d1: "decode P n m1 = Inr t1" and d2: "decode P n m2 = Inr t2"
  shows "1 \<le> i \<Longrightarrow> i + d = n - 1 \<Longrightarrow> path t1 i = path t2 i"
proof (induction d arbitrary: i)
  case 0
  from d1 obtain u1 where f1: "forward_pass P n m1 = Inr u1" by (rule decode_Inr)
  from d2 obtain u2 where f2: "forward_pass P n m2 = Inr u2" by (rule decode_Inr)
  from 0 have i: "i = n - 1" "1 \<le> n - 1" "n - 1 < n" by simp_all
  from forward_pass_ptr_determined(2)[OF f1 f2 i(2,3)]
  have "pi_tab u1 0 (n - 1) = pi_tab u2 0 (n - 1)" "pi_tab u1 1 (n - 1) = pi_tab u2 1 (n - 1)"
    by simp_all
  with decode_last[OF d1 f1] decode_last[OF d2 f2] i(1) show ?case by simp
next
  case (Suc d)
  from d1 obtain u1 where f1: "forward_pass P n m1 = Inr u1"
    and b1: "traceback (n - 2) (traceback_start P n u1) = Inr t1" by (rule decode_Inr)
  from d2 obtain u2 where f2: "forward_pass P n m2 = Inr u2"
    and b2: "traceback (n - 2) (traceback_start P n u2) = Inr t2" by (rule decode_Inr)
  from Suc.prems have i: "1 \<le> i" "i \<le> n - 2" "1 \<le> i + 1" "i + 1 < n" by simp_all
  from Suc.prems have nxt: "path t1 (i + 1) = path t2 (i + 1)"
    by (intro Suc.IH) simp_all
  from traceback_path[OF b1 i(1,2)]
  have p1: "path t1 (i + 1) = 0 \<or> path t1 (i + 1) = 1"
    "path t1 i = ptr u1 (nat (path t1 (i + 1))) (i + 1)"
    by (simp_all add: traceback_start_def)
  from traceback_path[OF b2 i(1,2)]
  have p2: "path t2 i = ptr u2 (nat (path t2 (i + 1))) (i + 1)"
    by (simp add: traceback_start_def)
  from p1(1) have "nat (path t1 (i + 1)) < 2" by auto
  from forward_pass_ptr_determined(1)[OF f1 f2 i(3,4) this] p1(2) p2 nxt
  show ?case by simp
qed

lemma decode_tail_determined:
  assumes "decode P n m1 = Inr t1" and "decode P n m2 = Inr t2"
  shows "tl (path_list n t1) = tl (path_list n t2)"
proof -
  have "path t1 i = path t2 i" if "1 \<le> i" "i < n" for i
    using that decode_path_determined[OF assms, of i "n - 1 - i"] by simp
  then have "map (path t1) [1..<n] = map (path t2) [1..<n]" by simp
  moreover have "tl (path_list n t) = map (path t) [1..<n]" for t
    by (cases n) (simp_all add: path_list_def map_tl[symmetric] upt_conv_Cons del: upt_Suc)
  ultimately show ?thesis by simp
qed

subsection \<open>The filled cells of each variant\<close>

lemma durbin_cell:
  assumes fw: "forward_pass (durbin seq) (length seq) m = Inr t"
    and c: "1 \<le> i" "i < length seq" and j: "j < 2"
  shows "vprob t j i = e_durbin ! nat (seq ! i) ! j
           + max (vprob t 0 (i - 1) + a_durbin ! 0 ! j) (vprob t 1 (i - 1) + a_durbin ! 1 ! j)"
    and "ptr t j i = argmax_durbin (vprob t 0 (i - 1) + a_durbin ! 0 ! j) (vprob t 1 (i - 1) + a_durbin ! 1 ! j)"
    and "pi_tab t j i = max (vprob t 0 (i - 1) + a_durbin ! 0 ! j) (vprob t 1 (i - 1) + a_durbin ! 1 ! j)"
  using forward_pass_cells[OF fw c j]
  by (auto simp: cell_ok_def row0_of_def row1_of_def emission_durbin_Inr max_durbin_eq)

lemma poisson_cell:
  assumes fw: "forward_pass (poisson_variant a e obs) (length obs) m = Inr t"
    and c: "1 \<le> i" "i < length obs" and j: "j < 2"
  shows "\<exists>p. poisson (obs ! (i - 1)) (e ! j) = Some p \<and> 0 < p \<and>
             vprob t j i = ln p + max (vprob t 0 (i - 1) + a ! 0 ! j) (vprob t 1 (i - 1) + a ! 1 ! j)"
    and "ptr t j i = argmax_poisson (vprob t 0 (i - 1) + a ! 0 ! j) (vprob t 1 (i - 1) + a ! 1 ! j)"
    and "pi_tab t j i = max (vprob t 0 (i - 1) + a ! 0 ! j) (vprob t 1 (i - 1) + a ! 1 ! j)"
  using forward_pass_cells[OF fw c j]
  by (auto simp: cell_ok_def row0_of_def row1_of_def emission_poisson_Inr max_poisson_eq)

lemma forward_main_total:
  assumes "1 \<le> length obs"
    and "\<And>i j. 1 \<le> i \<Longrightarrow> i < length obs \<Longrightarrow> j < 2 \<Longrightarrow>
           \<exists>p. poisson (obs ! (i - 1)) (e ! j) = Some p \<and> 0 < p"
  shows "\<exists>t. forward_main a e obs = Inr t"
  unfolding forward_main_def
proof (rule forward_pass_total[OF assms(1)])
  fix c j :: nat assume "1 \<le> c" "c < length obs" "j < 2"
  from assms(2)[OF this] obtain p where "poisson (obs ! (c - 1)) (e ! j) = Some p" "0 < p"
    by blast
  then have "emission_poisson e obs c j = Inr (ln p)"
    by (simp add: emission_poisson_Inr)
  then show "\<exists>em. emission (poisson_variant a e obs) c j = Inr em" by simp
qed

lemma factk_of_1: "factk_of 1 = 1"
  by (simp add: factk_of_def)

lemma poisson_1: "poisson 1 lambda = Some (lambda * exp (- lambda))"
  by (simp add: poisson_def factk_of_1)

subsection \<open>The factorial accumulator\<close>

lemma fact_loop_small:
  "fact_loop 1 0 = 1" "fact_loop 2 1 = 2" "fact_loop 3 2 = 6" "fact_loop 4 3 = 24"
  "fact_loop 5 4 = 120" "fact_loop 6 5 = 720" "fact_loop 7 6 = 5040" "fact_loop 8 7 = 40320"
  "fact_loop 9 8 = 362880" "fact_loop 10 9 = 3628800" "fact_loop 11 10 = 39916800"
  "fact_loop 12 11 = 479001600"
  by code_simp+

lemma fact_loop_13: "fact_loop 13 12 = 1932053504"
  by code_simp

lemma factk_small:
  assumes "0 \<le> k" and "k \<le> 12"
  shows "sint (factk_of k) = int (fact (nat k))"
proof -
  from assms have "k = 0 \<or> k = 1 \<or> k = 2 \<or> k = 3 \<or> k = 4 \<or> k = 5 \<or> k = 6 \<or> k = 7
      \<or> k = 8 \<or> k = 9 \<or> k = 10 \<or> k = 11 \<or> k = 12"
    by arith
  then show ?thesis
    by (auto simp: factk_of_def fact_loop_small fact_numeral)
qed

text \<open>Where the product fits, \<^verbatim>\<open>poisson\<close> is the Poisson probability.\<close>

lemma poisson_upto_12:
  assumes "0 \<le> k" and "k \<le> 12"
  shows "poisson k lambda = Some (lambda ^ nat k * exp (- lambda) / fact (nat k))"
proof -
  have f: "sint (factk_of k) = int (fact (nat k))"
    using assms by (rule factk_small)
  have "real_of_int (sint (factk_of k)) = fact (nat k)"
    unfolding f by simp
  moreover have "sint (factk_of k) \<noteq> 0"
    unfolding f by simp
  ultimately show ?thesis
    using assms(1) by (simp add: poisson_def power_int_def)
qed

subsection \<open>The input file of the discrete variant\<close>

lemma read_sequencefile_simps [simp]:
  "read_sequencefile [] = []" "read_sequencefile (v # vs) = (v - 1) # read_sequencefile vs"
  by (simp_all add: read_sequencefile_def)

lemma read_sequencefile_nth:
  "i < length nums \<Longrightarrow> read_sequencefile nums ! i = nums ! i - 1"
  by (simp add: read_sequencefile_def)

lemma length_read_sequencefile [simp]: "length (read_sequencefile nums) = length nums"
  by (simp add: read_sequencefile_def)

lemma tl_values:
  "(\<forall>v\<in>set (tl nums). Q v) \<longleftrightarrow> (\<forall>i. 1 \<le> i \<and> i < length nums \<longrightarrow> Q (nums ! i))"
proof (cases nums)
  case Nil
  then show ?thesis by simp
next
  case (Cons x xs)
  have "(\<forall>v\<in>set xs. Q v) \<longleftrightarrow> (\<forall>k < length xs. Q (xs ! k))"
    by (simp add: all_set_conv_all_nth)
  also have "\<dots> \<longleftrightarrow> (\<forall>i. 1 \<le> i \<and> i < length (x # xs) \<longrightarrow> Q ((x # xs) ! i))"
  proof
    assume a: "\<forall>k < length xs. Q (xs ! k)"
    show "\<forall>i. 1 \<le> i \<and> i < length (x # xs) \<longrightarrow> Q ((x # xs) ! i)"
    proof (intro allI impI)
      fix i assume "1 \<le> i \<and> i < length (x # xs)"
      then obtain k where "i = Suc k" "k < length xs" by (cases i) auto
      with a show "Q ((x # xs) ! i)" by simp
    qed
  next
    assume a: "\<forall>i. 1 \<le> i \<and> i < length (x # xs) \<longrightarrow> Q ((x # xs) ! i)"
    show "\<forall>k < length xs. Q (xs ! k)"
    proof (intro allI impI)
      fix k assume "k < length xs"
      with a[rule_format, of "Suc k"] show "Q (xs ! k)" by simp
    qed
  qed
  finally show ?thesis using Cons by simp
qed

lemma forward_durbin_fault_iff:
  "forward_durbin m seq = Inl EmissionOutOfBounds \<longleftrightarrow>
     (\<exists>i. 1 \<le> i \<and> i < length seq \<and> \<not> (0 \<le> seq ! i \<and> seq ! i < 6))"
proof
  assume "forward_durbin m seq = Inl EmissionOutOfBounds"
  then have "forward_pass (durbin seq) (length seq) m = Inl EmissionOutOfBounds"
    by (simp add: forward_durbin_def)
  from forward_pass_fault[OF this] show "\<exists>i. 1 \<le> i \<and> i < length seq \<and> \<not> (0 \<le> seq ! i \<and> seq ! i < 6)"
    by (auto simp: emission_durbin_Inl)
next
  assume "\<exists>i. 1 \<le> i \<and> i < length seq \<and> \<not> (0 \<le> seq ! i \<and> seq ! i < 6)"
  then obtain i where i: "1 \<le> i" "i < length seq" "\<not> (0 \<le> seq ! i \<and> seq ! i < 6)" by blast
  show "forward_durbin m seq = Inl EmissionOutOfBounds"
  proof (cases "forward_pass (durbin seq) (length seq) m")
    case (Inr t)
    from forward_pass_emissions[OF Inr i(1,2), of 0] i(3) show ?thesis
      by (simp add: emission_durbin_Inr)
  next
    case (Inl f)
    from forward_pass_fault[OF Inl] i(2) have "f = EmissionOutOfBounds"
      by (auto simp: emission_durbin_Inl)
    with Inl show ?thesis by (simp add: forward_durbin_def)
  qed
qed

lemma run_viterbi_fault_iff:
  "run_viterbi m seq = Inl EmissionOutOfBounds \<longleftrightarrow> forward_durbin m seq = Inl EmissionOutOfBounds"
proof
  assume "run_viterbi m seq = Inl EmissionOutOfBounds"
  then show "forward_durbin m seq = Inl EmissionOutOfBounds"
    unfolding run_viterbi_def forward_durbin_def by (rule decode_fault) simp
next
  assume "forward_durbin m seq = Inl EmissionOutOfBounds"
  then show "run_viterbi m seq = Inl EmissionOutOfBounds"
    by (simp add: run_viterbi_def forward_durbin_def decode_def)
qed


subsection \<open>Comparisons between the constants of \<^verbatim>\<open>viterbi_durbin.c\<close>\<close>

lemma exp_1_upper: "exp (1::real) < 284 / 100"
proof -
  have "exp (1 / 16 :: real) \<le> 1 + 1 / 16 + (1 / 16)\<^sup>2"
    by (rule exp_bound) simp_all
  then have b: "exp (1 / 16 :: real) \<le> 273 / 256"
    by (simp add: power2_eq_square)
  have "exp (1::real) = exp (of_nat 16 * (1 / 16))" by simp
  also have "\<dots> = exp (1 / 16) ^ 16" by (rule exp_of_nat_mult)
  also have "\<dots> \<le> (273 / 256) ^ 16" using b by (intro power_mono) simp_all
  also have "\<dots> < (284 / 100 :: real)" by (simp add: power_divide)
  finally show ?thesis .
qed

lemma exp_1_lower: "(2::real) \<le> exp 1"
  using exp_ge_add_one_self[of "1::real"] by simp

lemma ln_less_sum:
  fixes x y c :: real
  assumes "0 < x" and "0 < y" and "x < exp c * y"
  shows "ln x < c + ln y"
proof -
  from assms have "ln x < ln (exp c * y)" by (simp add: ln_less_cancel_iff)
  also from assms(2) have "\<dots> = c + ln y" by (simp add: ln_mult)
  finally show ?thesis .
qed

lemma sum_less_ln:
  fixes x y c :: real
  assumes "0 < x" and "0 < y" and "exp c * y < x"
  shows "c + ln y < ln x"
proof -
  from assms(2) have "c + ln y = ln (exp c * y)" by (simp add: ln_mult)
  also from assms have "\<dots> < ln x" by (simp add: ln_less_cancel_iff)
  finally show ?thesis .
qed

lemma durbin_cmp_a: "ln (0.1::real) < 1 + ln 0.95"
  by (rule ln_less_sum) (use exp_1_lower in simp_all)

lemma durbin_cmp_b: "1 + ln (0.05::real) < ln 0.9"
  by (rule sum_less_ln) (use exp_1_upper in simp_all)

lemma durbin_cmp_c: "ln (0.9::real) < 1 + ln 0.95"
  by (rule ln_less_sum) (use exp_1_lower in simp_all)

lemma durbin_cmp_d: "ln (1 / 6 :: real) + (1 + ln 0.95) < ln 0.5 + ln 0.9"
proof -
  have "ln (1 / 6 :: real) + ln 0.95 = ln (0.95 / 6)"
    using ln_mult[of "1 / 6 :: real" "0.95"] by simp
  moreover have "ln (0.5::real) + ln 0.9 = ln 0.45"
    using ln_mult[of "0.5 :: real" "0.9"] by simp
  moreover have "1 + ln (0.95 / 6 :: real) < ln 0.45"
    by (rule sum_less_ln) (use exp_1_upper in simp_all)
  ultimately show ?thesis by simp
qed

lemmas durbin_cmps = durbin_cmp_a durbin_cmp_b durbin_cmp_c durbin_cmp_d


subsection \<open>Unfolding a run on one or two observations\<close>

lemma forward_1: "forward P (Suc 0) (Suc 0) t = Inr t"
  by (simp add: forward_done)

lemma forward_2: "forward P (Suc (Suc 0)) (Suc 0) t = column P (Suc 0) t"
  by (subst forward.simps) (simp add: forward_done split: sum.splits)

lemmas run_defs = run_viterbi_def viterbi_main_def decode_def forward_pass_def forward_1 forward_2
  column_def fill_cell_def row0_of_def row1_of_def init_vprob_def traceback_start_def store_def
  emission_durbin_def emission_poisson_def calloc_tables_def path_list_def
  viterbi_output_def Let_def

subsection \<open>A count whose 32-bit factorial is negative\<close>

text \<open>
  With the constants of \<^verbatim>\<open>viterbi.c\<close>, on the sequence \<open>1 17 1 1\<close>: the 32-bit product
  for \<open>17!\<close> is \<open>- 288522240\<close>, \<^verbatim>\<open>poisson\<close> returns a negative number and column 2 takes
  its logarithm.
\<close>

lemma count_17_not_finite:
  "forward_main a_main e_main [1, 17, 1, 1] = Inl NonFinite"
proof -
  have f: "factk_of 17 = word_of_int (- 288522240)"
    unfolding factk_of_def by code_simp
  have "sint (word_of_int (- 288522240) :: 32 word) = - 288522240"
    by code_simp
  with f have s: "sint (factk_of 17) = - 288522240" by simp
  have neg: "poisson 17 lambda = Some p \<Longrightarrow> 0 < lambda \<Longrightarrow> p < 0" for lambda p
    by (auto simp: poisson_def s power_int_def divide_less_0_iff zero_less_mult_iff)
  have some: "0 < lambda \<Longrightarrow> \<exists>p. poisson 17 lambda = Some p" for lambda
    by (simp add: poisson_def s)
  have e17: "emission_poisson e_main [1, 17, 1, 1] 2 0 = Inl NonFinite"
  proof -
    have l: "0 < e_main ! 0" by (simp add: e_main_def)
    from some[OF l] obtain p where p: "poisson 17 (e_main ! 0) = Some p" by blast
    from neg[OF p l] p show ?thesis
      by (simp add: emission_poisson_def c_log_def)
  qed
  let ?P = "poisson_variant a_main e_main [1, 17, 1, 1]"
  let ?t0 = "init_vprob (calloc_tables\<lparr>vwrites := []\<rparr>)"
  have "\<exists>t. column ?P 1 ?t0 = Inr t"
    by (rule column_total[of _ _ "ln (e_main ! 0 * exp (- (e_main ! 0)))"
          "ln (e_main ! 1 * exp (- (e_main ! 1)))"])
       (simp_all add: emission_poisson_def poisson_1 c_log_def e_main_def)
  then obtain t1 where c1: "column ?P (Suc 0) ?t0 = Inr t1" by auto
  have c2: "column ?P 2 t1 = Inl NonFinite"
    using e17 by (simp add: column_def fill_cell_def)
  have "forward ?P 4 2 t1 = Inl NonFinite"
    by (simp add: forward.simps[of ?P 4 2 t1] c2)
  then have "forward ?P 4 (Suc (Suc 0)) t1 = Inl NonFinite"
    by (simp add: numeral_2_eq_2)
  then have "forward ?P 4 1 ?t0 = Inl NonFinite"
    by (subst forward.simps) (simp add: c1)
  moreover have "length [1, 17, 1, 1 :: int] = 4" by simp
  ultimately show ?thesis
    unfolding forward_main_def forward_pass_def by (simp del: list.size)
qed

section \<open>The claims\<close>

subsection \<open>C1: the recurrence of the score table\<close>

text \<open>
  C1. For a sequence of length \<open>n \<ge> 2\<close>, every column \<open>i\<close> from 1 to \<open>n - 1\<close> and every
  state \<open>j\<close>, the score table satisfies
  \<open>V[j][i] = emission + max (V[0][i-1] + a[0][j]) (V[1][i-1] + a[1][j])\<close>, where the emission
  term is \<^verbatim>\<open>e[seq[i]][j]\<close> in the discrete variant and \<^verbatim>\<open>log(poisson(seq[i-1], e[j]))\<close>
  in the Poisson variant. The discrete decoder returns on every sequence whose symbols
  after the first are table rows; the Poisson forward pass returns whenever each
  emission it takes the logarithm of is finite and positive, and the traceback leaves
  the table as it is.
\<close>

theorem score_table_recurrence:
  "(2 \<le> length seq \<and> (\<forall>i. 1 \<le> i \<and> i < length seq \<longrightarrow> 0 \<le> seq ! i \<and> seq ! i < 6) \<longrightarrow>
      (\<exists>t. run_viterbi m seq = Inr t \<and>
           (\<forall>i j. 1 \<le> i \<and> i < length seq \<and> j < 2 \<longrightarrow>
              vprob t j i = e_durbin ! nat (seq ! i) ! j
                + max (vprob t 0 (i - 1) + a_durbin ! 0 ! j) (vprob t 1 (i - 1) + a_durbin ! 1 ! j))))
   \<and>
   (2 \<le> length obs \<and>
    (\<forall>i j. 1 \<le> i \<and> i < length obs \<and> j < 2 \<longrightarrow>
        (\<exists>p. poisson (obs ! (i - 1)) (e ! j) = Some p \<and> 0 < p)) \<longrightarrow>
      (\<exists>t. forward_main a e obs = Inr t \<and>
           (\<forall>t'. viterbi_main a e obs = Inr t' \<longrightarrow> vprob t' = vprob t) \<and>
           (\<forall>i j. 1 \<le> i \<and> i < length obs \<and> j < 2 \<longrightarrow>
              (\<exists>p. poisson (obs ! (i - 1)) (e ! j) = Some p \<and>
                   vprob t j i = ln p
                     + max (vprob t 0 (i - 1) + a ! 0 ! j) (vprob t 1 (i - 1) + a ! 1 ! j)))))"
proof (intro conjI impI)
  assume h: "2 \<le> length seq \<and> (\<forall>i. 1 \<le> i \<and> i < length seq \<longrightarrow> 0 \<le> seq ! i \<and> seq ! i < 6)"
  then have n: "1 \<le> length seq" by simp
  from h have ok: "\<And>i. 1 \<le> i \<Longrightarrow> i < length seq \<Longrightarrow> 0 \<le> seq ! i \<and> seq ! i < 6"
    by blast
  from run_viterbi_total[OF n ok] obtain t' where run: "run_viterbi m seq = Inr t'"
    by blast
  then obtain t where fw: "forward_pass (durbin seq) (length seq) m = Inr t"
    unfolding run_viterbi_def by (rule decode_Inr)
  from run fw have v: "vprob t' = vprob t"
    unfolding run_viterbi_def by (rule decode_tables)
  show "\<exists>t. run_viterbi m seq = Inr t \<and>
           (\<forall>i j. 1 \<le> i \<and> i < length seq \<and> j < 2 \<longrightarrow>
              vprob t j i = e_durbin ! nat (seq ! i) ! j
                + max (vprob t 0 (i - 1) + a_durbin ! 0 ! j) (vprob t 1 (i - 1) + a_durbin ! 1 ! j))"
    using run durbin_cell(1)[OF fw] unfolding v[symmetric] by blast
next
  assume h: "2 \<le> length obs \<and>
    (\<forall>i j. 1 \<le> i \<and> i < length obs \<and> j < 2 \<longrightarrow>
        (\<exists>p. poisson (obs ! (i - 1)) (e ! j) = Some p \<and> 0 < p))"
  then have n: "1 \<le> length obs" by simp
  from h have ok: "\<And>i j. 1 \<le> i \<Longrightarrow> i < length obs \<Longrightarrow> j < 2 \<Longrightarrow>
      \<exists>p. poisson (obs ! (i - 1)) (e ! j) = Some p \<and> 0 < p"
    by blast
  from forward_main_total[OF n ok] obtain t where fm: "forward_main a e obs = Inr t"
    by blast
  then have fw: "forward_pass (poisson_variant a e obs) (length obs) calloc_tables = Inr t"
    by (simp add: forward_main_def)
  have "vprob t' = vprob t" if "viterbi_main a e obs = Inr t'" for t'
    using that fw unfolding viterbi_main_def by (rule decode_tables)
  moreover have "\<exists>p. poisson (obs ! (i - 1)) (e ! j) = Some p \<and>
       vprob t j i = ln p + max (vprob t 0 (i - 1) + a ! 0 ! j) (vprob t 1 (i - 1) + a ! 1 ! j)"
    if "1 \<le> i" "i < length obs" "j < 2" for i j
    using poisson_cell(1)[OF fw that] by blast
  ultimately show "\<exists>t. forward_main a e obs = Inr t \<and>
           (\<forall>t'. viterbi_main a e obs = Inr t' \<longrightarrow> vprob t' = vprob t) \<and>
           (\<forall>i j. 1 \<le> i \<and> i < length obs \<and> j < 2 \<longrightarrow>
              (\<exists>p. poisson (obs ! (i - 1)) (e ! j) = Some p \<and>
                   vprob t j i = ln p
                     + max (vprob t 0 (i - 1) + a ! 0 ! j) (vprob t 1 (i - 1) + a ! 1 ! j)))"
    using fm by blast
qed

theorem score_table_recurrence_witness:
  "(\<exists>t. run_viterbi calloc_tables [0, 5] = Inr t \<and>
        vprob t 1 1 = e_durbin ! 5 ! 1
           + max (vprob t 0 0 + a_durbin ! 0 ! 1) (vprob t 1 0 + a_durbin ! 1 ! 1))
   \<and>
   (\<exists>t. forward_main a_main e_main [1, 1] = Inr t \<and>
        vprob t 1 1 = ln (5.7812 * exp (- 5.7812))
           + max (vprob t 0 0 + a_main ! 0 ! 1) (vprob t 1 0 + a_main ! 1 ! 1))"
proof -
  have d: "2 \<le> length [0, 5 :: int] \<and>
      (\<forall>i. 1 \<le> i \<and> i < length [0, 5 :: int] \<longrightarrow> 0 \<le> [0, 5 :: int] ! i \<and> [0, 5 :: int] ! i < 6)"
    by (auto simp: nth_Cons')
  have p: "2 \<le> length [1, 1 :: int] \<and>
      (\<forall>i j. 1 \<le> i \<and> i < length [1, 1 :: int] \<and> j < 2 \<longrightarrow>
         (\<exists>p. poisson ([1, 1] ! (i - 1)) (e_main ! j) = Some p \<and> 0 < p))"
    by (auto simp: nth_Cons' poisson_1 e_main_def less_2_cases_iff)
  from score_table_recurrence[of "[0, 5]" calloc_tables "[1, 1]" e_main a_main] d p
  obtain t u where t: "run_viterbi calloc_tables [0, 5] = Inr t"
      "\<forall>i j. 1 \<le> i \<and> i < length [0, 5 :: int] \<and> j < 2 \<longrightarrow>
         vprob t j i = e_durbin ! nat ([0, 5] ! i) ! j
           + max (vprob t 0 (i - 1) + a_durbin ! 0 ! j) (vprob t 1 (i - 1) + a_durbin ! 1 ! j)"
    and u: "forward_main a_main e_main [1, 1] = Inr u"
      "\<forall>i j. 1 \<le> i \<and> i < length [1, 1 :: int] \<and> j < 2 \<longrightarrow>
         (\<exists>p. poisson ([1, 1] ! (i - 1)) (e_main ! j) = Some p \<and>
              vprob u j i = ln p
                + max (vprob u 0 (i - 1) + a_main ! 0 ! j) (vprob u 1 (i - 1) + a_main ! 1 ! j))"
    by blast
  from t(2)[rule_format, of 1 1] have "vprob t 1 1 = e_durbin ! 5 ! 1
           + max (vprob t 0 0 + a_durbin ! 0 ! 1) (vprob t 1 0 + a_durbin ! 1 ! 1)"
    by simp
  moreover have "vprob u 1 1 = ln (5.7812 * exp (- 5.7812))
           + max (vprob u 0 0 + a_main ! 0 ! 1) (vprob u 1 0 + a_main ! 1 ! 1)"
  proof -
    from u(2)[rule_format, of 1 1] obtain q where
      q: "poisson ([1, 1] ! (1 - 1)) (e_main ! 1) = Some q"
      and v: "vprob u 1 1 = ln q
                + max (vprob u 0 (1 - 1) + a_main ! 0 ! 1) (vprob u 1 (1 - 1) + a_main ! 1 ! 1)"
      by auto
    have "poisson ([1, 1] ! (1 - 1)) (e_main ! 1) = Some (5.7812 * exp (- 5.7812))"
      by (simp add: poisson_1 e_main_def)
    with q have "q = 5.7812 * exp (- 5.7812)"
      by (simp only: option.inject)
    with v show ?thesis by simp
  qed
  ultimately show ?thesis using t(1) u(1) by blast
qed

subsection \<open>C2: the last state of the path\<close>

text \<open>
  C2, as amended. For a sequence of length \<open>n \<ge> 2\<close> the last element of the decoded path
  is \<open>argmax (pi[0][n-1], pi[1][n-1])\<close>, where \<open>pi[j][n-1]\<close> is the row maximum
  \<open>max (V[0][n-2] + a[0][j]) (V[1][n-2] + a[1][j])\<close>: the final column of \<^verbatim>\<open>vprob\<close> without
  its emission term. Both programs take the \<^verbatim>\<open>argmax\<close> of \<^verbatim>\<open>pi\<close>, not of \<^verbatim>\<open>vprob\<close>.
\<close>

theorem last_state_from_pi:
  "(2 \<le> length seq \<and> (\<forall>i. 1 \<le> i \<and> i < length seq \<longrightarrow> 0 \<le> seq ! i \<and> seq ! i < 6) \<longrightarrow>
      (\<exists>t. run_viterbi m seq = Inr t \<and>
           last (path_list (length seq) t)
             = argmax_durbin (pi_tab t 0 (length seq - 1)) (pi_tab t 1 (length seq - 1)) \<and>
           (\<forall>j. j < 2 \<longrightarrow> pi_tab t j (length seq - 1)
               = max (vprob t 0 (length seq - 2) + a_durbin ! 0 ! j)
                     (vprob t 1 (length seq - 2) + a_durbin ! 1 ! j))))
   \<and>
   (\<forall>u. 2 \<le> length obs \<and> viterbi_main a e obs = Inr u \<longrightarrow>
        last (path_list (length obs) u)
          = argmax_poisson (pi_tab u 0 (length obs - 1)) (pi_tab u 1 (length obs - 1)) \<and>
        (\<forall>j. j < 2 \<longrightarrow> pi_tab u j (length obs - 1)
            = max (vprob u 0 (length obs - 2) + a ! 0 ! j)
                  (vprob u 1 (length obs - 2) + a ! 1 ! j)))"
proof (intro conjI impI allI)
  assume h: "2 \<le> length seq \<and> (\<forall>i. 1 \<le> i \<and> i < length seq \<longrightarrow> 0 \<le> seq ! i \<and> seq ! i < 6)"
  then have n: "1 \<le> length seq" and n2: "2 \<le> length seq" by simp_all
  from h have ok: "\<And>i. 1 \<le> i \<Longrightarrow> i < length seq \<Longrightarrow> 0 \<le> seq ! i \<and> seq ! i < 6"
    by blast
  from run_viterbi_total[OF n ok] obtain t where run: "run_viterbi m seq = Inr t"
    by blast
  then have dec: "decode (durbin seq) (length seq) m = Inr t"
    by (simp add: run_viterbi_def)
  from decode_last_pi[OF dec n2] run
  show "\<exists>t. run_viterbi m seq = Inr t \<and>
           last (path_list (length seq) t)
             = argmax_durbin (pi_tab t 0 (length seq - 1)) (pi_tab t 1 (length seq - 1)) \<and>
           (\<forall>j. j < 2 \<longrightarrow> pi_tab t j (length seq - 1)
               = max (vprob t 0 (length seq - 2) + a_durbin ! 0 ! j)
                     (vprob t 1 (length seq - 2) + a_durbin ! 1 ! j))"
    by (auto simp: max_durbin_eq)
next
  fix u assume h: "2 \<le> length obs \<and> viterbi_main a e obs = Inr u"
  then have dec: "decode (poisson_variant a e obs) (length obs) calloc_tables = Inr u"
    and n2: "2 \<le> length obs"
    by (simp_all add: viterbi_main_def)
  from decode_last_pi(1)[OF dec n2]
  show "last (path_list (length obs) u)
          = argmax_poisson (pi_tab u 0 (length obs - 1)) (pi_tab u 1 (length obs - 1))"
    by simp
next
  fix u j assume h: "2 \<le> length obs \<and> viterbi_main a e obs = Inr u" and j: "j < (2::nat)"
  then have dec: "decode (poisson_variant a e obs) (length obs) calloc_tables = Inr u"
    and n2: "2 \<le> length obs"
    by (simp_all add: viterbi_main_def)
  from decode_last_pi(2)[OF dec n2 j]
  show "pi_tab u j (length obs - 1)
            = max (vprob u 0 (length obs - 2) + a ! 0 ! j)
                  (vprob u 1 (length obs - 2) + a ! 1 ! j)"
    by (simp add: max_poisson_eq)
qed

theorem last_state_from_pi_witness:
  "(\<exists>t. run_viterbi calloc_tables (read_sequencefile [1, 6]) = Inr t \<and>
        last (path_list 2 t) = argmax_durbin (pi_tab t 0 1) (pi_tab t 1 1) \<and>
        pi_tab t 1 1 = max (vprob t 0 0 + a_durbin ! 0 ! 1) (vprob t 1 0 + a_durbin ! 1 ! 1))
   \<and>
   (\<exists>u. viterbi_main a_main e_main [1, 1] = Inr u \<and>
        last (path_list 2 u) = argmax_poisson (pi_tab u 0 1) (pi_tab u 1 1) \<and>
        pi_tab u 1 1 = max (vprob u 0 0 + a_main ! 0 ! 1) (vprob u 1 0 + a_main ! 1 ! 1))"
proof -
  let ?seq = "read_sequencefile [1, 6]"
  have d: "2 \<le> length ?seq \<and> (\<forall>i. 1 \<le> i \<and> i < length ?seq \<longrightarrow> 0 \<le> ?seq ! i \<and> ?seq ! i < 6)"
    by (auto simp: nth_Cons')
  have p: "\<exists>u. viterbi_main a_main e_main [1, 1] = Inr u"
    by (simp add: run_defs poisson_1 c_log_def e_main_def)
  then obtain u where u: "viterbi_main a_main e_main [1, 1] = Inr u" ..
  have len: "length ?seq = 2" "length [1, 1 :: int] = 2" by simp_all
  note inst = last_state_from_pi[of ?seq calloc_tables "[1, 1]" a_main e_main, unfolded len]
  from inst d[unfolded len] obtain t where t: "run_viterbi calloc_tables ?seq = Inr t"
    "last (path_list 2 t) = argmax_durbin (pi_tab t 0 (2 - 1)) (pi_tab t 1 (2 - 1))"
    "\<forall>j. j < 2 \<longrightarrow> pi_tab t j (2 - 1)
               = max (vprob t 0 (2 - 2) + a_durbin ! 0 ! j) (vprob t 1 (2 - 2) + a_durbin ! 1 ! j)"
    by blast
  from inst u have u2:
    "last (path_list 2 u) = argmax_poisson (pi_tab u 0 (2 - 1)) (pi_tab u 1 (2 - 1))"
    "\<forall>j. j < 2 \<longrightarrow> pi_tab u j (2 - 1)
               = max (vprob u 0 (2 - 2) + a_main ! 0 ! j) (vprob u 1 (2 - 2) + a_main ! 1 ! j)"
    by simp_all
  from t(3)[rule_format, of 1] u2(2)[rule_format, of 1] t(1,2) u u2(1)
  show ?thesis by simp
qed

text \<open>
  The claim as stated takes the \<^verbatim>\<open>argmax\<close> of the final column of \<^verbatim>\<open>vprob\<close>. On the file
  \<open>1 6\<close> the discrete decoder ends the path in state 0, while the final column of
  \<^verbatim>\<open>vprob\<close> is larger in state 1: the emission of the six is what tips it.
\<close>

theorem last_state_counterexample:
  "map_sum id (\<lambda>t. (last (path_list 2 t), argmax_durbin (vprob t 0 1) (vprob t 1 1)))
     (run_viterbi calloc_tables (read_sequencefile [1, 6])) = Inr (0, 1)"
  using durbin_cmps
  by (simp add: run_defs argmax_durbin_def max_durbin_def a_durbin_def e_durbin_def upt_conv_Cons)

subsection \<open>C3: a sequence of length one\<close>

text \<open>
  C3. The claim: for a sequence of length exactly 1 the decoded path is the single
  start state 0. With one observation the forward loop does not run, and the traceback
  takes the \<^verbatim>\<open>argmax\<close> of two cells of \<^verbatim>\<open>pi\<close> that were never stored into. In
  \<^verbatim>\<open>viterbi.c\<close> these come zeroed from \<^verbatim>\<open>calloc\<close> and the tie gives state 0. In
  \<^verbatim>\<open>viterbi_durbin.c\<close> they come from \<^verbatim>\<open>malloc\<close>; where the heap holds zeros, its
  \<^verbatim>\<open>argmax\<close> answers the tie with state 1 and the program prints \<^verbatim>\<open>L\<close>.
\<close>

theorem length_one_decodes:
  "map_sum id (path_list 1) (run_viterbi calloc_tables (read_sequencefile [1])) = Inr [1] \<and>
   map_sum id (viterbi_output 1) (run_viterbi calloc_tables (read_sequencefile [1])) = Inr ''L'' \<and>
   map_sum id (path_list 1) (viterbi_main a_main e_main [1]) = Inr [0]"
  by (simp add: run_defs argmax_durbin_def argmax_poisson_def c_trunc_def)

subsection \<open>C4: exact ties in \<^verbatim>\<open>argmax\<close>\<close>

text \<open>
  C4. The claim: whenever the two predecessor scores are exactly equal, the
  \<^verbatim>\<open>argmax\<close> that fills the backpointer table returns index 1. The \<^verbatim>\<open>argmax\<close> of
  \<^verbatim>\<open>viterbi_durbin.c\<close> does. The \<^verbatim>\<open>argmax\<close> of \<^verbatim>\<open>viterbi.c\<close> and of
  \<^verbatim>\<open>poisson_sampling/viterbi.c\<close> ends in \<^verbatim>\<open>return row1;\<close> and so returns the common
  score, cut to an integer: on the tie \<open>- 3.5\<close> it returns \<open>- 3\<close>.
\<close>

theorem argmax_poisson_tie:
  "argmax_poisson (- 7 / 2) (- 7 / 2) = - 3 \<and> argmax_durbin (- 7 / 2) (- 7 / 2) = 1"
  by (simp add: argmax_poisson_def argmax_durbin_def c_trunc_def)

subsection \<open>C5: the start column and the single store per cell\<close>

text \<open>
  C5, as amended. After initialisation and throughout the decode, \<open>V[0][0] = 1\<close> and
  \<open>V[1][0] = 0\<close>, and no cell of the score table is stored into more than once.
  \<open>forward_pass P k m\<close> is the state at the head of the loop when \<open>i = k\<close> (lemma
  \<open>forward_pass_prefix\<close>), so \<open>k = 1\<close> is the state right after initialisation; the
  result of the whole decode is the state after the traceback.
\<close>

theorem start_column_kept:
  "(\<forall>t. forward_pass (durbin seq) k m = Inr t \<longrightarrow>
        vprob t 0 0 = 1 \<and> vprob t 1 0 = 0 \<and> distinct (vwrites t)) \<and>
   (\<forall>t. run_viterbi m seq = Inr t \<longrightarrow>
        vprob t 0 0 = 1 \<and> vprob t 1 0 = 0 \<and> distinct (vwrites t)) \<and>
   (\<forall>t. forward_pass (poisson_variant a e obs) k calloc_tables = Inr t \<longrightarrow>
        vprob t 0 0 = 1 \<and> vprob t 1 0 = 0 \<and> distinct (vwrites t)) \<and>
   (\<forall>t. viterbi_main a e obs = Inr t \<longrightarrow>
        vprob t 0 0 = 1 \<and> vprob t 1 0 = 0 \<and> distinct (vwrites t))"
  unfolding run_viterbi_def viterbi_main_def
  using start_column start_column_decode by blast

theorem start_column_kept_witness:
  "(\<exists>t. run_viterbi calloc_tables (read_sequencefile [1, 6]) = Inr t \<and>
        vprob t 0 0 = 1 \<and> vprob t 1 0 = 0 \<and> distinct (vwrites t)) \<and>
   (\<exists>t. forward_pass (durbin (read_sequencefile [1, 6])) 1 calloc_tables = Inr t \<and>
        vprob t 0 0 = 1 \<and> vprob t 1 0 = 0 \<and> distinct (vwrites t)) \<and>
   (\<exists>t. viterbi_main a_main e_main [1, 1] = Inr t \<and>
        vprob t 0 0 = 1 \<and> vprob t 1 0 = 0 \<and> distinct (vwrites t))"
proof -
  have "\<exists>t. run_viterbi calloc_tables (read_sequencefile [1, 6]) = Inr t"
    by (simp add: run_defs)
  moreover have "\<exists>t. forward_pass (durbin (read_sequencefile [1, 6])) 1 calloc_tables = Inr t"
    by (simp add: run_defs)
  moreover have "\<exists>t. viterbi_main a_main e_main [1, 1] = Inr t"
    by (simp add: run_defs poisson_1 c_log_def e_main_def)
  ultimately show ?thesis
    using start_column_kept[of "read_sequencefile [1, 6]" 1 calloc_tables a_main e_main "[1, 1]"]
    by blast
qed

text \<open>
  The claim as stated has \<open>V[0][0] = 0\<close>. Both programs store 1 there.
\<close>

theorem start_score_counterexample:
  "map_sum id (\<lambda>t. (vprob t 0 0, vprob t 1 0)) (run_viterbi calloc_tables (read_sequencefile [1, 6]))
     = Inr (1, 0)
   \<and> map_sum id (\<lambda>t. (vprob t 0 0, vprob t 1 0)) (viterbi_main a_main e_main [1, 1]) = Inr (1, 0)"
  by (simp add: run_defs poisson_1 c_log_def e_main_def)

subsection \<open>C6: the range of the backpointers\<close>

text \<open>
  C6. The claim: every stored backpointer \<open>ptr[j][i]\<close>, \<open>i \<ge> 1\<close>, is 0 or 1. It holds in
  the discrete variant, whose \<^verbatim>\<open>argmax\<close> returns nothing else. In the Poisson variant the
  backpointer of an exact tie is the tied score cut to an integer: with the transition
  matrix \<open>a_tie\<close> both predecessor scores of state 1 in column 1 are \<open>- 2\<close>, and the
  program stores \<open>- 2\<close>. For the constants of the file no exact tie of finite scores is
  exhibited here; a count of 17 makes the scores non-finite first (lemma
  \<open>count_17_not_finite\<close>), which is where the reals stop following the doubles.
\<close>

theorem backpointer_on_tie:
  "map_sum id (\<lambda>t. (row0_of (poisson_variant a_tie e_main [1, 1]) t 1 1,
                     row1_of (poisson_variant a_tie e_main [1, 1]) t 1 1, ptr t 1 1))
     (viterbi_main a_tie e_main [1, 1]) = Inr (- 2, - 2, - 2)"
  by (simp add: run_defs poisson_1 c_log_def e_main_def a_tie_def argmax_poisson_def c_trunc_def)

subsection \<open>C7: two runs on the same input\<close>

text \<open>
  C7. The claim: two decodes of the same observations under the same model give the same
  path. For \<open>n \<ge> 2\<close> the traceback never stores into \<^verbatim>\<open>path[0]\<close>, and \<^verbatim>\<open>run_viterbi\<close>
  prints what \<^verbatim>\<open>malloc\<close> left there: on the file \<open>1 1\<close> it prints \<^verbatim>\<open>FF\<close> from a zeroed
  block and \<^verbatim>\<open>LF\<close> from a block whose cells hold 1. Every later element of the path is
  the same in both runs (lemma \<open>decode_tail_determined\<close>); element 0 is the cell as the
  allocator left it (lemma \<open>decode_path_head\<close>).
\<close>

theorem output_depends_on_heap:
  "map_sum id (path_list 2) (run_viterbi calloc_tables (read_sequencefile [1, 1])) = Inr [0, 0] \<and>
   map_sum id (path_list 2) (run_viterbi stale_tables (read_sequencefile [1, 1])) = Inr [1, 0] \<and>
   map_sum id (viterbi_output 2) (run_viterbi calloc_tables (read_sequencefile [1, 1])) = Inr ''FF'' \<and>
   map_sum id (viterbi_output 2) (run_viterbi stale_tables (read_sequencefile [1, 1])) = Inr ''LF''"
  using durbin_cmps
  by (simp add: run_defs stale_tables_def argmax_durbin_def max_durbin_def a_durbin_def e_durbin_def upt_conv_Cons)

subsection \<open>C8: the value of \<^verbatim>\<open>poisson\<close>\<close>

text \<open>
  C8. The claim: for every non-negative count \<open>k\<close> and every rate \<open>lambda\<close>,
  \<^verbatim>\<open>poisson(k, lambda)\<close> returns \<open>lambda ^ k * exp (- lambda) / k!\<close>, with \<open>0! = 1\<close>.
  The helper computes \<open>k!\<close> by repeated multiplication into \<^verbatim>\<open>int factk\<close>. Up to \<open>k = 12\<close>
  the product fits and the value is the claimed one (lemma \<open>poisson_upto_12\<close>). At
  \<open>k = 13\<close> the product leaves the range of \<^verbatim>\<open>int\<close> (undefined in C; 32-bit
  multiplication leaves 1932053504), and the helper divides by that instead of
  \<open>13! = 6227020800\<close>: with the rate 1.8234 of the file the result is not the Poisson
  probability.
\<close>

theorem poisson_13_factorial_overflow:
  "sint (factk_of 13) = 1932053504 \<and>
   poisson 13 1.8234 = Some (1.8234 ^ 13 * exp (- 1.8234) / 1932053504) \<and>
   poisson 13 1.8234 \<noteq> Some (1.8234 ^ 13 * exp (- 1.8234) / fact 13)"
proof -
  have f: "factk_of 13 = 1932053504"
    by (simp add: factk_of_def fact_loop_13)
  then have s: "sint (factk_of 13) = 1932053504"
    by simp
  from f have p: "poisson 13 1.8234 = Some (1.8234 ^ 13 * exp (- 1.8234) / 1932053504)"
    by (simp add: poisson_def power_int_def)
  have "(fact 13 :: real) = 6227020800"
    by (simp add: fact_numeral)
  then have "poisson 13 1.8234 \<noteq> Some (1.8234 ^ 13 * exp (- 1.8234) / fact 13)"
    unfolding p by simp
  with s p show ?thesis by blast
qed

subsection \<open>C9: the row maximum is attained through the backpointer\<close>

text \<open>
  C9. In the discrete variant, for every column \<open>i \<ge> 1\<close> and state \<open>j\<close>, the stored
  backpointer is 0 or 1 and \<open>pi[j][i] = V[ptr[j][i]][i-1] + a[ptr[j][i]][j]\<close>.
\<close>

theorem pi_attained_through_ptr:
  assumes "2 \<le> length seq"
    and "\<forall>i. 1 \<le> i \<and> i < length seq \<longrightarrow> 0 \<le> seq ! i \<and> seq ! i < 6"
  shows "\<exists>t. run_viterbi m seq = Inr t \<and>
           (\<forall>i j. 1 \<le> i \<and> i < length seq \<and> j < 2 \<longrightarrow>
              (ptr t j i = 0 \<or> ptr t j i = 1) \<and>
              pi_tab t j i = vprob t (nat (ptr t j i)) (i - 1) + a_durbin ! nat (ptr t j i) ! j)"
proof -
  from assms(1) have n: "1 \<le> length seq" by simp
  from assms(2) have ok: "\<And>i. 1 \<le> i \<Longrightarrow> i < length seq \<Longrightarrow> 0 \<le> seq ! i \<and> seq ! i < 6"
    by blast
  from run_viterbi_total[OF n ok] obtain t' where run: "run_viterbi m seq = Inr t'"
    by blast
  then obtain t where fw: "forward_pass (durbin seq) (length seq) m = Inr t"
    unfolding run_viterbi_def by (rule decode_Inr)
  from run fw have same: "vprob t' = vprob t" "ptr t' = ptr t" "pi_tab t' = pi_tab t"
    unfolding run_viterbi_def by (rule decode_tables)+
  have "(ptr t j i = 0 \<or> ptr t j i = 1) \<and>
        pi_tab t j i = vprob t (nat (ptr t j i)) (i - 1) + a_durbin ! nat (ptr t j i) ! j"
    if "1 \<le> i" "i < length seq" "j < 2" for i j
    using durbin_cell(2,3)[OF fw that]
    by (simp add: argmax_durbin_def max_def)
  with run show ?thesis
    unfolding same[symmetric] by blast
qed

theorem pi_attained_through_ptr_witness:
  "\<exists>t. run_viterbi calloc_tables [0, 5] = Inr t \<and>
       (ptr t 1 1 = 0 \<or> ptr t 1 1 = 1) \<and>
       pi_tab t 1 1 = vprob t (nat (ptr t 1 1)) 0 + a_durbin ! nat (ptr t 1 1) ! 1"
proof -
  have "2 \<le> length [0, 5 :: int]" by simp
  moreover have "\<forall>i. 1 \<le> i \<and> i < length [0, 5 :: int] \<longrightarrow> 0 \<le> [0, 5 :: int] ! i \<and> [0, 5 :: int] ! i < 6"
    by (auto simp: nth_Cons')
  ultimately obtain t where t: "run_viterbi calloc_tables [0, 5] = Inr t"
    "\<forall>i j. 1 \<le> i \<and> i < length [0, 5 :: int] \<and> j < 2 \<longrightarrow>
              (ptr t j i = 0 \<or> ptr t j i = 1) \<and>
              pi_tab t j i = vprob t (nat (ptr t j i)) (i - 1) + a_durbin ! nat (ptr t j i) ! j"
    using pi_attained_through_ptr[of "[0, 5]" calloc_tables] by blast
  from t(2)[rule_format, of 1 1] t(1) show ?thesis by simp
qed

subsection \<open>C10: the emission lookup stays inside its table\<close>

text \<open>
  C10, as amended. Every value \<open>v\<close> of the sequence file is stored as \<open>v - 1\<close>, and the
  lookups \<^verbatim>\<open>e[seq[i]][j]\<close> of the recursion stay inside the six rows of the table if and
  only if every value of the file after the first lies in 1 to 6. The recursion starts
  at \<open>i = 1\<close>: the first value is never looked up.
\<close>

theorem emission_lookup_in_range_iff:
  "(forward_durbin m (read_sequencefile nums) \<noteq> Inl EmissionOutOfBounds
      \<longleftrightarrow> (\<forall>v\<in>set (tl nums). 1 \<le> v \<and> v \<le> 6)) \<and>
   (run_viterbi m (read_sequencefile nums) \<noteq> Inl EmissionOutOfBounds
      \<longleftrightarrow> (\<forall>v\<in>set (tl nums). 1 \<le> v \<and> v \<le> 6))"
proof -
  have "(\<forall>v\<in>set (tl nums). 1 \<le> v \<and> v \<le> 6) \<longleftrightarrow>
        (\<forall>i. 1 \<le> i \<and> i < length nums \<longrightarrow> 1 \<le> nums ! i \<and> nums ! i \<le> 6)"
    by (rule tl_values)
  also have "\<dots> \<longleftrightarrow> \<not> (\<exists>i. 1 \<le> i \<and> i < length (read_sequencefile nums) \<and>
        \<not> (0 \<le> read_sequencefile nums ! i \<and> read_sequencefile nums ! i < 6))"
    by (auto simp: read_sequencefile_nth)
  also have "\<dots> \<longleftrightarrow> forward_durbin m (read_sequencefile nums) \<noteq> Inl EmissionOutOfBounds"
    by (simp only: forward_durbin_fault_iff)
  finally show ?thesis
    by (simp add: run_viterbi_fault_iff)
qed

theorem emission_lookup_in_range_iff_witness:
  "forward_durbin calloc_tables (read_sequencefile [7, 1, 6]) \<noteq> Inl EmissionOutOfBounds \<and>
   run_viterbi calloc_tables (read_sequencefile [1, 7]) = Inl EmissionOutOfBounds"
  using emission_lookup_in_range_iff[of calloc_tables "[7, 1, 6]"]
    emission_lookup_in_range_iff[of calloc_tables "[1, 7]"]
  by simp

text \<open>
  The claim as stated asks for every value of the file. On the file \<open>7 1\<close> the forward
  pass fills both columns without leaving the table.
\<close>

theorem first_value_counterexample:
  "map_sum id (\<lambda>t. vwrites t) (forward_durbin calloc_tables (read_sequencefile [7, 1]))
     = Inr [(0, 0), (1, 0), (0, 1), (1, 1)]
   \<and> \<not> list_all (\<lambda>v. 1 \<le> v \<and> v \<le> 6) [7, 1 :: int]"
  by (simp add: forward_durbin_def run_defs)

end
